theory Spec2Isabelle
  imports Complex_Main "HOL-Library.Log_Nat" "HOL-Library.Sublist"
begin

section \<open>JavaScript numbers\<close>

text \<open>
  The scores of \<^verbatim>\<open>index.js\<close> are JavaScript numbers: IEEE 754 binary64 values, every
  operation rounded to nearest, ties to even. A number is modelled by its value: a
  rational (for a finite double), one of the two infinities, or NaN. The two zeros are
  one value \<open>Finite 0\<close>; in \<^verbatim>\<open>cosineSimilarity\<close> every divisor is a product of
  two square roots of sums that start at \<open>+0\<close>, so it is never \<open>-0\<close>, and
  the sign of a zero is not observable through \<open><\<close> or through the sort.
\<close>

datatype number = Finite rat | PosInf | NegInf | NaN

text \<open>\<open>ilog2 q\<close> is \<open>\<lfloor>log\<^sub>2 q\<rfloor>\<close> for a positive rational.\<close>

definition ilog2 :: "rat \<Rightarrow> int" where
  "ilog2 q = (case quotient_of q of (n, d) \<Rightarrow>
     (let k = bitlen n - bitlen d in if 2 powi k \<le> q then k else k - 1))"

text \<open>Rounding a rational to the nearest integer, ties to the even one.\<close>

definition rne :: "rat \<Rightarrow> int" where
  "rne q = (let f = \<lfloor>q\<rfloor>; r = q - of_int f
            in if r < 1 / 2 then f else if 1 / 2 < r then f + 1
               else if even f then f else f + 1)"

text \<open>
  \<open>fl q\<close> rounds the exact result \<open>q\<close> of an operation to a double: 53 significant
  bits, the smallest quantum \<open>2\<^sup>-\<^sup>1\<^sup>0\<^sup>7\<^sup>4\<close> (subnormals), overflow to an infinity when
  the rounded value reaches \<open>2\<^sup>1\<^sup>0\<^sup>2\<^sup>4\<close>.
\<close>

definition fl :: "rat \<Rightarrow> number" where
  "fl q = (if q = 0 then Finite 0
           else let e = max (ilog2 \<bar>q\<bar> - 52) (- 1074);
                    r = of_int (rne (q / 2 powi e)) * 2 powi e
                in if 2 powi 1024 \<le> \<bar>r\<bar> then (if 0 < q then PosInf else NegInf)
                   else Finite r)"

text \<open>\<open>isqrt n\<close> is \<open>\<lfloor>\<surd>n\<rfloor>\<close>, two bits of \<open>n\<close> for each bit of the root.\<close>

function isqrt :: "int \<Rightarrow> int" where
  "isqrt n = (if n < 2 then (if n < 0 then 0 else n)
              else let r = 2 * isqrt (n div 4)
                   in if (r + 1) * (r + 1) \<le> n then r + 1 else r)"
  by pat_completeness auto
termination
  by (relation "measure nat") auto

declare isqrt.simps [simp del]

text \<open>The correctly rounded square root of a non-negative rational (\<^verbatim>\<open>Math.sqrt\<close>).\<close>

definition sqrt_rne :: "rat \<Rightarrow> number" where
  "sqrt_rne q = (if q = 0 then Finite 0
     else let e = max (ilog2 q div 2 - 52) (- 1074);
              t = q / 2 powi (2 * e);
              m = isqrt \<lfloor>t\<rfloor>;
              c = (of_int m + 1 / 2) * (of_int m + 1 / 2);
              m' = (if t < c then m else if c < t then m + 1
                    else if even m then m else m + 1)
          in Finite (of_int m' * 2 powi e))"

text \<open>
  The finite doubles: at most 53 significant bits above the quantum \<open>2\<^sup>-\<^sup>1\<^sup>0\<^sup>7\<^sup>4\<close>,
  below \<open>2\<^sup>1\<^sup>0\<^sup>2\<^sup>4\<close>. Every finite double is a multiple of the smallest quantum.
\<close>

definition representable :: "rat \<Rightarrow> bool" where
  "representable q \<longleftrightarrow>
     (\<exists>m e. q = of_int m * 2 powi e \<and> \<bar>m\<bar> < 2 ^ 53 \<and> - 1074 \<le> e \<and> \<bar>q\<bar> < 2 powi 1024)"

definition on_grid :: "number \<Rightarrow> bool" where
  "on_grid x = (case x of Finite q \<Rightarrow> q * 2 ^ 1074 \<in> \<int> | _ \<Rightarrow> True)"

definition zero_or_NaN :: "number \<Rightarrow> bool" where
  "zero_or_NaN x \<longleftrightarrow> x = Finite 0 \<or> x = NaN"

definition rat_sign :: "rat \<Rightarrow> int" where
  "rat_sign q = (if q < 0 then - 1 else if q = 0 then 0 else 1)"

definition num_sign :: "number \<Rightarrow> int" where
  "num_sign x = (case x of Finite q \<Rightarrow> rat_sign q | PosInf \<Rightarrow> 1 | NegInf \<Rightarrow> - 1 | NaN \<Rightarrow> 0)"

definition inf_of_sign :: "int \<Rightarrow> number" where
  "inf_of_sign s = (if s = 0 then NaN else if 0 < s then PosInf else NegInf)"

definition num_neg :: "number \<Rightarrow> number" where
  "num_neg x = (case x of Finite q \<Rightarrow> Finite (- q) | PosInf \<Rightarrow> NegInf
                | NegInf \<Rightarrow> PosInf | NaN \<Rightarrow> NaN)"

text \<open>\<open>a + b\<close>\<close>

definition num_add :: "number \<Rightarrow> number \<Rightarrow> number" where
  "num_add a b =
     (if a = NaN \<or> b = NaN then NaN
      else case (a, b) of
        (Finite x, Finite y) \<Rightarrow> fl (x + y)
      | (Finite x, _) \<Rightarrow> b
      | (_, Finite y) \<Rightarrow> a
      | _ \<Rightarrow> if a = b then a else NaN)"

text \<open>\<open>a - b\<close>\<close>

definition num_sub :: "number \<Rightarrow> number \<Rightarrow> number" where
  "num_sub a b = num_add a (num_neg b)"

text \<open>\<open>a * b\<close>\<close>

definition num_mul :: "number \<Rightarrow> number \<Rightarrow> number" where
  "num_mul a b =
     (if a = NaN \<or> b = NaN then NaN
      else case (a, b) of
        (Finite x, Finite y) \<Rightarrow> fl (x * y)
      | _ \<Rightarrow> inf_of_sign (num_sign a * num_sign b))"

text \<open>\<open>a / b\<close>; a zero divisor is \<open>+0\<close> (see above).\<close>

definition num_div :: "number \<Rightarrow> number \<Rightarrow> number" where
  "num_div a b =
     (if a = NaN \<or> b = NaN then NaN
      else case (a, b) of
        (Finite x, Finite y) \<Rightarrow> if y = 0 then inf_of_sign (rat_sign x) else fl (x / y)
      | (Finite x, _) \<Rightarrow> Finite 0
      | (_, Finite y) \<Rightarrow> inf_of_sign (num_sign a * (if y < 0 then - 1 else 1))
      | _ \<Rightarrow> NaN)"

text \<open>\<^verbatim>\<open>Math.sqrt\<close>\<close>

definition num_sqrt :: "number \<Rightarrow> number" where
  "num_sqrt a = (case a of Finite x \<Rightarrow> if x < 0 then NaN else sqrt_rne x
                 | PosInf \<Rightarrow> PosInf | NegInf \<Rightarrow> NaN | NaN \<Rightarrow> NaN)"

text \<open>\<open>a < b\<close>: false as soon as one side is NaN.\<close>

definition num_less :: "number \<Rightarrow> number \<Rightarrow> bool" where
  "num_less a b =
     (case (a, b) of
        (NaN, _) \<Rightarrow> False
      | (_, NaN) \<Rightarrow> False
      | (Finite x, Finite y) \<Rightarrow> x < y
      | (Finite x, PosInf) \<Rightarrow> True
      | (NegInf, Finite y) \<Rightarrow> True
      | (NegInf, PosInf) \<Rightarrow> True
      | _ \<Rightarrow> False)"

text \<open>The literal \<^verbatim>\<open>0.3\<close>: the double nearest to three tenths.\<close>

definition default_threshold :: number where
  "default_threshold = Finite (5404319552844595 / 18014398509481984)"

section \<open>Strings\<close>

text \<open>
  A string is a list of code units. The ones of the 8-bit \<^typ>\<open>char\<close> are the Latin-1
  range U+0000 to U+00FF, on which \<^verbatim>\<open>trim\<close> and \<^verbatim>\<open>toLowerCase\<close> are as follows
  (and stay in that range); code units above U+00FF are not modelled.
\<close>

definition isWhiteSpace :: "char \<Rightarrow> bool" where
  "isWhiteSpace c = (of_char c \<in> {9, 10, 11, 12, 13, 32, 160 :: nat})"

definition trim :: "string \<Rightarrow> string" where
  "trim s = rev (dropWhile isWhiteSpace (rev (dropWhile isWhiteSpace s)))"

definition lower_char :: "char \<Rightarrow> char" where
  "lower_char c =
     (let n = (of_char c :: nat)
      in if (65 \<le> n \<and> n \<le> 90) \<or> (192 \<le> n \<and> n \<le> 222 \<and> n \<noteq> 215)
         then char_of (n + 32) else c)"

definition toLowerCase :: "string \<Rightarrow> string" where
  "toLowerCase s = map lower_char s"

text \<open>\<^verbatim>\<open>s.replace(pattern, replacement)\<close> with a string pattern: the first occurrence only.\<close>

fun replace :: "string \<Rightarrow> string \<Rightarrow> string \<Rightarrow> string" where
  "replace pat rep [] = (if pat = [] then rep else [])"
| "replace pat rep (c # cs) =
     (if prefix pat (c # cs) then rep @ drop (length pat) (c # cs)
      else c # replace pat rep cs)"

text \<open>\<^verbatim>\<open>parts.join(sep)\<close>\<close>

fun join :: "string \<Rightarrow> string list \<Rightarrow> string" where
  "join sep [] = []"
| "join sep [x] = x"
| "join sep (x # y # ys) = x @ sep @ join sep (y # ys)"

text \<open>\<^verbatim>\<open>xs.slice(0, end)\<close>: a negative end counts from the end of the array.\<close>

definition slice0 :: "int \<Rightarrow> 'a list \<Rightarrow> 'a list" where
  "slice0 end xs = (if 0 \<le> end then take (nat end) xs
                    else take (length xs - nat (- end)) xs)"

section \<open>Cosine similarity\<close>

datatype error = Error string

definition cosineSimilarity :: "number list \<Rightarrow> number list \<Rightarrow> error + number" where
  "cosineSimilarity vecA vecB =
     (if length vecA \<noteq> length vecB then Inl (Error ''Vectors must have the same length'')
      else let dot = foldl (\<lambda>sum (a, b). num_add sum (num_mul a b)) (Finite 0) (zip vecA vecB);
               magA = num_sqrt (foldl (\<lambda>sum a. num_add sum (num_mul a a)) (Finite 0) vecA);
               magB = num_sqrt (foldl (\<lambda>sum b. num_add sum (num_mul b b)) (Finite 0) vecB)
           in Inr (num_div dot (num_mul magA magB)))"

section \<open>Roles\<close>

definition agentPrompts :: "(string \<times> string) list" where
  "agentPrompts =
    [(''customer_support'', ''You are a helpful and empathetic customer support agent. ONLY answer from the given context. If the answer is not found, say: 'will forward this to our customer agent'.''),
     (''sales_agent'', ''You are a persuasive and friendly sales representative. ONLY answer from the given context. If the answer is not found, say: 'will forward this to our sales agent'.''),
     (''marketing_agent'', ''You are a creative and data-driven marketing strategist. ONLY answer from the given context. If the answer is not found, say: 'will forward this to our marketing agent'.''),
     (''technical_expert'', ''You are a precise and experienced technical expert. ONLY answer from the given context. If the answer is not found, say: 'will forward this to our technical expert'.''),
     (''general_info'', ''You are a polite and intelligent assistant helping with general queries. ONLY answer from the given context. If the answer is not found, say: 'will forward this to our general info agent'.'')]"

section \<open>The collaborators and the state of the process\<close>

text \<open>
  The language model, the embedding provider, the text splitter and the file system are
  outside the program. Each call either throws (\<open>Inl\<close>) or returns; a file that does
  not exist is \<open>None\<close>. \<open>chat\<close> is the \<^verbatim>\<open>fetch\<close> of \<^verbatim>\<open>/api/chat\<close> followed by
  \<^verbatim>\<open>response.json()\<close>, returning \<^verbatim>\<open>data.message?.content\<close>.
\<close>

record env =
  validationChain :: "string \<Rightarrow> error + string"
  roleChain :: "string \<Rightarrow> error + string"
  embedQuery :: "string \<Rightarrow> error + number list"
  createDocuments :: "string \<Rightarrow> error + string list"
  readFileSync :: "string \<Rightarrow> string option"
  chat :: "string \<Rightarrow> string \<Rightarrow> error + string option"
  KNOWLEDGE_FILES :: "string list"

record chunk =
  embedding :: "number list"
  "text" :: string
  fileName :: string

record scored_chunk = chunk +
  score :: number

datatype call =
    ValidationCall string
  | RoleCall string
  | EmbedCall string
  | SplitCall string
  | ChatCall string string

text \<open>The module-level \<^verbatim>\<open>vectorStore\<close>, and the calls made to the collaborators so far.\<close>

record world =
  vectorStore :: "chunk list"
  calls :: "call list"

definition invoke :: "call \<Rightarrow> world \<Rightarrow> world" where
  "invoke c w = w\<lparr>calls := calls w @ [c]\<rparr>"

definition push :: "chunk \<Rightarrow> world \<Rightarrow> world" where
  "push c w = w\<lparr>vectorStore := vectorStore w @ [c]\<rparr>"

section \<open>Role classification and question validation\<close>

definition classifyRole :: "env \<Rightarrow> string \<Rightarrow> world \<Rightarrow> (error + string) \<times> world" where
  "classifyRole env query w =
     (case roleChain env query of
        Inl e \<Rightarrow> (Inl e, invoke (RoleCall query) w)
      | Inr result \<Rightarrow>
          (let label = toLowerCase (trim result);
               allowed = map fst agentPrompts
           in (Inr (if label \<in> set allowed then label else ''general_info''),
               invoke (RoleCall query) w)))"

definition validateQuestion :: "env \<Rightarrow> string \<Rightarrow> world \<Rightarrow> (error + bool) \<times> world" where
  "validateQuestion env query w =
     (case validationChain env query of
        Inl e \<Rightarrow> (Inl e, invoke (ValidationCall query) w)
      | Inr result \<Rightarrow>
          (let label = toLowerCase (trim result)
           in (Inr (label = ''valid''), invoke (ValidationCall query) w)))"

section \<open>Knowledge base and embeddings\<close>

text \<open>The inner loop of \<^verbatim>\<open>loadKnowledgeBase\<close>: embed and store each document of one file.\<close>

fun loadKnowledgeBase_docs ::
  "env \<Rightarrow> string \<Rightarrow> string list \<Rightarrow> world \<Rightarrow> (error + unit) \<times> world" where
  "loadKnowledgeBase_docs env path [] w = (Inr (), w)"
| "loadKnowledgeBase_docs env path (doc # docs) w =
     (case embedQuery env doc of
        Inl e \<Rightarrow> (Inl e, invoke (EmbedCall doc) w)
      | Inr v \<Rightarrow>
          loadKnowledgeBase_docs env path docs
            (push \<lparr>embedding = v, text = doc, fileName = path\<rparr> (invoke (EmbedCall doc) w)))"

text \<open>The outer loop: one round for each configured path.\<close>

fun loadKnowledgeBase_files ::
  "env \<Rightarrow> string list \<Rightarrow> world \<Rightarrow> (error + unit) \<times> world" where
  "loadKnowledgeBase_files env [] w = (Inr (), w)"
| "loadKnowledgeBase_files env (path # paths) w =
     (case readFileSync env path of
        None \<Rightarrow> loadKnowledgeBase_files env paths w
      | Some contents \<Rightarrow>
          (let t = trim contents
           in if t = [] then loadKnowledgeBase_files env paths w
              else (case createDocuments env t of
                      Inl e \<Rightarrow> (Inl e, invoke (SplitCall t) w)
                    | Inr docs \<Rightarrow>
                        (case loadKnowledgeBase_docs env path docs (invoke (SplitCall t) w) of
                           (Inl e, w') \<Rightarrow> (Inl e, w')
                         | (Inr u, w') \<Rightarrow> loadKnowledgeBase_files env paths w'))))"

definition loadKnowledgeBase ::
  "env \<Rightarrow> string list \<Rightarrow> world \<Rightarrow> (error + chunk list) \<times> world" where
  "loadKnowledgeBase env filePaths w =
     (if length (vectorStore w) > 0 then (Inr (vectorStore w), w)
      else (case loadKnowledgeBase_files env filePaths w of
              (Inl e, w') \<Rightarrow> (Inl e, w')
            | (Inr u, w') \<Rightarrow> (Inr (vectorStore w'), w')))"

text \<open>
  \<^verbatim>\<open>vectorStore.map(item => ({...item, score: cosineSimilarity(queryEmbedding, item.embedding)}))\<close>:
  the first throw of \<^verbatim>\<open>cosineSimilarity\<close> ends the map.
\<close>

fun score_all :: "number list \<Rightarrow> chunk list \<Rightarrow> error + scored_chunk list" where
  "score_all queryEmbedding [] = Inr []"
| "score_all queryEmbedding (item # items) =
     (case cosineSimilarity queryEmbedding (embedding item) of
        Inl e \<Rightarrow> Inl e
      | Inr s \<Rightarrow>
          (case score_all queryEmbedding items of
             Inl e \<Rightarrow> Inl e
           | Inr rest \<Rightarrow> Inr (chunk.extend item (scored_chunk.fields s) # rest)))"

text \<open>The comparator \<^verbatim>\<open>(a, b) => b.score - a.score\<close>.\<close>

definition compareFn :: "scored_chunk \<Rightarrow> scored_chunk \<Rightarrow> number" where
  "compareFn a b = num_sub (score b) (score a)"

text \<open>
  \<^verbatim>\<open>Array.prototype.sort\<close> is a stable sort: \<open>a\<close> moves behind \<open>b\<close> only when the
  comparator's result is greater than zero (a NaN result counts as zero). For a
  comparator that is a consistent ordering every stable sort returns the same array,
  the one of the insertion sort below; on the others the order is left to the engine.
  With \<open>compareFn\<close> the comparator is consistent on a list whose scores are all
  doubles other than NaN, and on a list whose scores are all NaN (every comparison
  is then NaN and the order is kept). On a list that mixes NaN with other scores the
  insertion sort and the engine's merge sort can return different orders; the
  theorems on the order of the result assume a list of one of the first two kinds.
\<close>

fun insert_by :: "('a \<Rightarrow> 'a \<Rightarrow> number) \<Rightarrow> 'a \<Rightarrow> 'a list \<Rightarrow> 'a list" where
  "insert_by cmp x [] = [x]"
| "insert_by cmp x (y # ys) =
     (if num_less (Finite 0) (cmp x y) then y # insert_by cmp x ys else x # y # ys)"

definition sort_by :: "('a \<Rightarrow> 'a \<Rightarrow> number) \<Rightarrow> 'a list \<Rightarrow> 'a list" where
  "sort_by cmp xs = foldr (insert_by cmp) xs []"

text \<open>
  \<open>ranks_above x y\<close>: the score of \<open>x\<close> is not below that of \<open>y\<close>. A score
  takes part in a consistent ordering when it is a double other than NaN.
\<close>

definition ranks_above :: "scored_chunk \<Rightarrow> scored_chunk \<Rightarrow> bool" where
  "ranks_above x y \<longleftrightarrow> \<not> num_less (score x) (score y)"

definition comparable :: "scored_chunk \<Rightarrow> bool" where
  "comparable x \<longleftrightarrow> on_grid (score x) \<and> score x \<noteq> NaN"

text \<open>
  The wording of the specification, "the single highest score is strictly below the
  threshold": there is a score, and it and so every other one is below.
\<close>

definition highest_score_below :: "scored_chunk list \<Rightarrow> number \<Rightarrow> bool" where
  "highest_score_below scored threshold \<longleftrightarrow>
     scored \<noteq> [] \<and> (\<forall>c \<in> set scored. num_less (score c) threshold)"

definition findRelevantChunks ::
  "env \<Rightarrow> string \<Rightarrow> int \<Rightarrow> number \<Rightarrow> world \<Rightarrow> (error + scored_chunk list) \<times> world" where
  "findRelevantChunks env question topK threshold w =
     (case embedQuery env question of
        Inl e \<Rightarrow> (Inl e, invoke (EmbedCall question) w)
      | Inr queryEmbedding \<Rightarrow>
          (case score_all queryEmbedding (vectorStore w) of
             Inl e \<Rightarrow> (Inl e, invoke (EmbedCall question) w)
           | Inr scored \<Rightarrow>
               (let sorted = sort_by compareFn scored;
                    topResults = slice0 topK sorted
                in (Inr (case topResults of
                           [] \<Rightarrow> topResults
                         | r # rs \<Rightarrow> (if num_less (score r) threshold then [] else topResults)),
                    invoke (EmbedCall question) w))))"

section \<open>The ask route\<close>

text \<open>
  The handler either sends one response (status, body) or its promise rejects with
  nothing sent by the handler: an error thrown outside the \<^verbatim>\<open>try\<close> block leaves
  the handler, and what the client then sees is up to the framework.
\<close>

datatype outcome = Responded nat string | Rejected error

text \<open>The cross mark U+274C, as the three bytes sent on the wire.\<close>

definition cross_mark :: string where
  "cross_mark = [CHR 0xE2, CHR 0x9D, CHR 0x8C]"

definition basePrompt :: "string \<Rightarrow> string" where
  "basePrompt role =
     (case map_of agentPrompts role of
        Some p \<Rightarrow> p
      | None \<Rightarrow> (case map_of agentPrompts ''general_info'' of Some p \<Rightarrow> p | None \<Rightarrow> []))"

definition forward_message :: "string \<Rightarrow> string" where
  "forward_message role = ''will forward this to our '' @ replace ''_'' '' '' role"

definition context_of :: "scored_chunk list \<Rightarrow> string" where
  "context_of relevantChunks =
     join [CHR 0x0A, CHR 0x0A]
       (map (\<lambda>c. ''From '' @ fileName c @ '':'' @ [CHR 0x0A] @ take 600 (text c)) relevantChunks)"

definition systemPrompt :: "string \<Rightarrow> scored_chunk list \<Rightarrow> string" where
  "systemPrompt role relevantChunks =
     [CHR 0x0A] @ basePrompt role @ [CHR 0x0A, CHR 0x0A]
     @ ''RULES:'' @ [CHR 0x0A]
     @ ''- ONLY answer using the Reference Context.'' @ [CHR 0x0A]
     @ ''- If answer not found in context reply exactly: '' @ [CHR 0x22]
     @ forward_message role @ [CHR 0x22] @ ''.'' @ [CHR 0x0A, CHR 0x0A]
     @ ''Reference Context:'' @ [CHR 0x0A]
     @ context_of relevantChunks @ [CHR 0x0A]"

definition fullAnswer :: "string option \<Rightarrow> string" where
  "fullAnswer content =
     (case content of
        None \<Rightarrow> cross_mark @ '' No content returned.''
      | Some s \<Rightarrow> if s = [] then cross_mark @ '' No content returned.'' else s)"

text \<open>The body of the \<^verbatim>\<open>try\<close> block.\<close>

definition ask_chat :: "env \<Rightarrow> string \<Rightarrow> string \<Rightarrow> world \<Rightarrow> (error + outcome) \<times> world" where
  "ask_chat env p query w =
     (case chat env p query of
        Inl e \<Rightarrow> (Inl e, invoke (ChatCall p query) w)
      | Inr content \<Rightarrow> (Inr (Responded 200 (fullAnswer content)), invoke (ChatCall p query) w))"

definition ask_try :: "env \<Rightarrow> string \<Rightarrow> world \<Rightarrow> (error + outcome) \<times> world" where
  "ask_try env query w =
     (case classifyRole env query w of
        (Inl e, w1) \<Rightarrow> (Inl e, w1)
      | (Inr role, w1) \<Rightarrow>
          (case loadKnowledgeBase env (KNOWLEDGE_FILES env) w1 of
             (Inl e, w2) \<Rightarrow> (Inl e, w2)
           | (Inr store, w2) \<Rightarrow>
               (case findRelevantChunks env query 3 default_threshold w2 of
                  (Inl e, w3) \<Rightarrow> (Inl e, w3)
                | (Inr relevantChunks, w3) \<Rightarrow>
                    (if length relevantChunks = 0
                     then (Inr (Responded 200 (forward_message role)), w3)
                     else ask_chat env (systemPrompt role relevantChunks) query w3))))"

definition ask :: "env \<Rightarrow> string option \<Rightarrow> world \<Rightarrow> outcome \<times> world" where
  "ask env body w =
     (case body of
        None \<Rightarrow> (Responded 400 ''{\"error\":\"Missing query.\"}'', w)
      | Some query \<Rightarrow>
          (if query = [] then (Responded 400 ''{\"error\":\"Missing query.\"}'', w)
           else (case validateQuestion env query w of
                   (Inl e, w1) \<Rightarrow> (Rejected e, w1)
                 | (Inr isValid, w1) \<Rightarrow>
                     (if \<not> isValid
                      then (Responded 200 ''Could you provide more details about your question?'', w1)
                      else (case ask_try env query w1 of
                              (Inl e, w2) \<Rightarrow> (Responded 500 (cross_mark @ '' An error occurred.''), w2)
                            | (Inr r, w2) \<Rightarrow> (r, w2))))))"

section \<open>Concurrent calls of loadKnowledgeBase\<close>

text \<open>
  Node runs one handler at a time and switches between requests only where a handler
  awaits input or output. In \<^verbatim>\<open>loadKnowledgeBase\<close> that is the call of the embedding
  provider, \<^verbatim>\<open>await embeddings.embedQuery(doc.pageContent)\<close>; the text splitter
  resolves without input or output, so no other request runs in between, and the file
  system is read synchronously. A call in flight is a task: not yet started, suspended
  at the embedding of a document (with the documents and paths still to do), or done.
\<close>

datatype task =
    Ready
  | AwaitEmbed string string "string list" "string list"
  | Done "error + unit"

text \<open>The outer loop up to the first document to embed.\<close>

fun build_scan :: "env \<Rightarrow> string list \<Rightarrow> chunk list \<Rightarrow> task \<times> chunk list" where
  "build_scan env [] store = (Done (Inr ()), store)"
| "build_scan env (path # paths) store =
     (case readFileSync env path of
        None \<Rightarrow> build_scan env paths store
      | Some contents \<Rightarrow>
          (let t = trim contents
           in if t = [] then build_scan env paths store
              else (case createDocuments env t of
                      Inl e \<Rightarrow> (Done (Inl e), store)
                    | Inr docs \<Rightarrow>
                        (case docs of
                           [] \<Rightarrow> build_scan env paths store
                         | doc # rest \<Rightarrow> (AwaitEmbed path doc rest paths, store)))))"

text \<open>The inner loop after a document: the next document, or the next path.\<close>

definition build_next ::
  "env \<Rightarrow> string \<Rightarrow> string list \<Rightarrow> string list \<Rightarrow> chunk list \<Rightarrow> task \<times> chunk list" where
  "build_next env path docs paths store =
     (case docs of
        [] \<Rightarrow> build_scan env paths store
      | doc # rest \<Rightarrow> (AwaitEmbed path doc rest paths, store))"

text \<open>
  One turn of a task on the shared \<^verbatim>\<open>vectorStore\<close>: from where it stands to its next
  suspension. A task that starts tests \<^verbatim>\<open>vectorStore.length > 0\<close>; a suspended one
  receives its embedding and pushes the chunk.
\<close>

definition build_turn :: "env \<Rightarrow> string list \<Rightarrow> task \<Rightarrow> chunk list \<Rightarrow> task \<times> chunk list" where
  "build_turn env filePaths t store =
     (case t of
        Ready \<Rightarrow>
          if length store > 0 then (Done (Inr ()), store) else build_scan env filePaths store
      | AwaitEmbed path doc docs paths \<Rightarrow>
          (case embedQuery env doc of
             Inl e \<Rightarrow> (Done (Inl e), store)
           | Inr v \<Rightarrow>
               build_next env path docs paths
                 (store @ [\<lparr>embedding = v, text = doc, fileName = path\<rparr>]))
      | Done r \<Rightarrow> (Done r, store))"

text \<open>The states a set of tasks can reach from \<open>s\<close>, one turn of one task at a time.\<close>

inductive interleave ::
  "env \<Rightarrow> string list \<Rightarrow> task list \<times> chunk list \<Rightarrow> task list \<times> chunk list \<Rightarrow> bool"
  for env filePaths s where
    start: "interleave env filePaths s s"
  | turn: "interleave env filePaths s (ts, store) \<Longrightarrow> i < length ts \<Longrightarrow>
           build_turn env filePaths (ts ! i) store = (t', store') \<Longrightarrow>
           interleave env filePaths s (ts[i := t'], store')"

text \<open>
  What the sequential \<^verbatim>\<open>loadKnowledgeBase\<close> leaves in the store from the point where a
  task stands: \<open>after_docs\<close> for the documents of the current file and the paths
  after it.
\<close>

definition after_docs :: "env \<Rightarrow> string \<Rightarrow> string list \<Rightarrow> string list \<Rightarrow> world \<Rightarrow> chunk list" where
  "after_docs env path docs paths w =
     (case loadKnowledgeBase_docs env path docs w of
        (Inl e, w') \<Rightarrow> vectorStore w'
      | (Inr u, w') \<Rightarrow> vectorStore (snd (loadKnowledgeBase_files env paths w')))"

definition rest_of_build :: "env \<Rightarrow> string list \<Rightarrow> task \<Rightarrow> chunk list \<Rightarrow> chunk list" where
  "rest_of_build env filePaths t store =
     (case t of
        Ready \<Rightarrow>
          vectorStore (snd (loadKnowledgeBase env filePaths \<lparr>vectorStore = store, calls = []\<rparr>))
      | AwaitEmbed path doc docs paths \<Rightarrow>
          after_docs env path (doc # docs) paths \<lparr>vectorStore = store, calls = []\<rparr>
      | Done r \<Rightarrow> store)"

section \<open>A small deployment\<close>

text \<open>
  Two one-chunk knowledge files and a provider with two-dimensional embeddings; the
  refund chunk and the refund question point the same way, the shipping chunk is
  orthogonal to them.
\<close>

definition demo_embed :: "string \<Rightarrow> error + number list" where
  "demo_embed t =
     (if t = ''Our refund window is 30 days.'' then Inr [Finite 3, Finite 4]
      else if t = ''Shipping takes 5 days.'' then Inr [Finite 4, Finite (- 3)]
      else if t = ''What is your refund policy?'' then Inr [Finite 3, Finite 4]
      else if t = ''How long does shipping take?'' then Inr [Finite 4, Finite (- 3)]
      else if t = ''Do you sell gift cards?'' then Inr [Finite 0, Finite 0]
      else Inr [Finite 1])"

definition demo_files :: "string \<Rightarrow> string option" where
  "demo_files path =
     (if path = ''knowledge.txt'' then Some ''Our refund window is 30 days.''
      else if path = ''shipping.txt'' then Some ''Shipping takes 5 days.''
      else None)"

definition demo_env :: env where
  "demo_env =
     \<lparr>validationChain = (\<lambda>q. Inr ('' valid'' @ [CHR 0x0A])),
      roleChain = (\<lambda>q. Inr ('' Technical_Expert '' @ [CHR 0x0A])),
      embedQuery = demo_embed,
      createDocuments = (\<lambda>t. Inr [t]),
      readFileSync = demo_files,
      chat = (\<lambda>p q. Inr (Some ''Refunds are accepted within 30 days.'')),
      KNOWLEDGE_FILES = [''knowledge.txt'', ''shipping.txt'']\<rparr>"

definition demo_store :: "chunk list" where
  "demo_store =
     [\<lparr>embedding = [Finite 3, Finite 4], text = ''Our refund window is 30 days.'',
       fileName = ''knowledge.txt''\<rparr>,
      \<lparr>embedding = [Finite 4, Finite (- 3)], text = ''Shipping takes 5 days.'',
       fileName = ''shipping.txt''\<rparr>]"

definition demo_world :: world where
  "demo_world = \<lparr>vectorStore = demo_store, calls = []\<rparr>"

definition demo_scored :: "scored_chunk list" where
  "demo_scored =
     [\<lparr>embedding = [Finite 3, Finite 4], text = ''Our refund window is 30 days.'',
       fileName = ''knowledge.txt'', score = Finite 1\<rparr>,
      \<lparr>embedding = [Finite 4, Finite (- 3)], text = ''Shipping takes 5 days.'',
       fileName = ''shipping.txt'', score = Finite 0\<rparr>]"

definition refund_world :: world where
  "refund_world = \<lparr>vectorStore = [hd demo_store], calls = []\<rparr>"

definition empty_world :: world where
  "empty_world = \<lparr>vectorStore = [], calls = []\<rparr>"

section \<open>Properties of rounding\<close>

lemma pow2_pos [simp]: "0 < (2::rat) powi k"
  by (simp add: zero_less_power_int)

lemma pow2_of_nat: "0 \<le> k \<Longrightarrow> (2::rat) powi k = 2 ^ nat k"
  by (simp add: power_int_def)

lemma pow2_Suc: "(2::rat) powi (k + 1) = 2 * 2 powi k"
  by (simp add: power_int_add)

lemma pow2_mono: "a \<le> b \<Longrightarrow> (2::rat) powi a \<le> 2 powi b"
  by (rule power_int_increasing) simp_all

lemma pow2_strict_mono: "a < b \<Longrightarrow> (2::rat) powi a < 2 powi b"
  by (rule power_int_strict_increasing) simp_all

lemma bitlen_rat_bounds:
  assumes "0 < n"
  shows "(2::rat) powi (bitlen n - 1) \<le> of_int n" and "(of_int n :: rat) < 2 powi (bitlen n)"
proof -
  from bitlen_bounds [OF assms]
  have a: "2 ^ nat (bitlen n - 1) \<le> n" and b: "n < 2 ^ nat (bitlen n)" by auto
  have ge1: "1 \<le> bitlen n" using assms by (auto simp: bitlen_alt_def)
  have "(of_int (2 ^ nat (bitlen n - 1)) :: rat) \<le> of_int n" using a by (simp only: of_int_le_iff)
  then show "(2::rat) powi (bitlen n - 1) \<le> of_int n"
    using ge1 by (simp add: pow2_of_nat)
  have "(of_int n :: rat) < of_int (2 ^ nat (bitlen n))" using b by (simp only: of_int_less_iff)
  then show "(of_int n :: rat) < 2 powi (bitlen n)"
    using ge1 by (simp add: pow2_of_nat)
qed

lemma ilog2_bounds:
  assumes "0 < q"
  shows "2 powi (ilog2 q) \<le> q \<and> q < 2 powi (ilog2 q + 1)"
proof -
  obtain n d where nd: "quotient_of q = (n, d)" by (cases "quotient_of q")
  have d: "0 < d" using nd by (rule quotient_of_denom_pos)
  have q: "q = of_int n / of_int d" using nd by (rule quotient_of_div)
  have n: "0 < n" using assms d q by (simp add: zero_less_divide_iff)
  define k where "k = bitlen n - bitlen d"
  note bn = bitlen_rat_bounds [OF n] and bd = bitlen_rat_bounds [OF d]
  have dpos: "(0::rat) < of_int d" using d by simp
  have up: "q < 2 powi (k + 1)"
  proof -
    have "of_int n < (2::rat) powi (k + 1) * 2 powi (bitlen d - 1)"
      using bn(2) by (simp add: k_def flip: power_int_add)
    also have "\<dots> \<le> 2 powi (k + 1) * of_int d"
      using bd(1) by (simp add: mult_left_mono)
    finally show ?thesis using dpos by (simp add: q pos_divide_less_eq)
  qed
  have lo: "2 powi (k - 1) < q"
  proof -
    have "(2::rat) powi (k - 1) * of_int d < 2 powi (k - 1) * 2 powi (bitlen d)"
      using bd(2) by (simp add: mult_strict_left_mono)
    also have "\<dots> = 2 powi (bitlen n - 1)"
      by (simp add: k_def flip: power_int_add)
    also have "\<dots> \<le> of_int n" using bn(1) .
    finally show ?thesis using dpos by (simp add: q pos_less_divide_eq)
  qed
  show ?thesis
  proof (cases "2 powi k \<le> q")
    case True
    then show ?thesis using up nd by (simp add: ilog2_def k_def)
  next
    case False
    then have "q < 2 powi k" by simp
    moreover have "2 powi (k - 1) \<le> q" using lo by simp
    ultimately show ?thesis using nd False by (simp add: ilog2_def k_def)
  qed
qed

lemma ilog2_unique:
  assumes "2 powi e \<le> q" and "q < 2 powi (e + 1)"
  shows "ilog2 q = e"
proof -
  have q: "0 < q" using assms(1) pow2_pos [of e] by linarith
  from ilog2_bounds [OF q] have b: "2 powi (ilog2 q) \<le> q" "q < 2 powi (ilog2 q + 1)" by auto
  have "\<not> ilog2 q < e"
  proof
    assume "ilog2 q < e"
    then have "ilog2 q + 1 \<le> e" by simp
    then have "(2::rat) powi (ilog2 q + 1) \<le> 2 powi e" by (rule pow2_mono)
    with b(2) assms(1) show False by linarith
  qed
  moreover have "\<not> e < ilog2 q"
  proof
    assume "e < ilog2 q"
    then have "e + 1 \<le> ilog2 q" by simp
    then have "(2::rat) powi (e + 1) \<le> 2 powi (ilog2 q)" by (rule pow2_mono)
    with b(1) assms(2) show False by linarith
  qed
  ultimately show ?thesis by linarith
qed

lemma rne_of_int [simp]: "rne (of_int n) = n"
  by (simp add: rne_def)

lemma rne_error: "\<bar>of_int (rne q) - q\<bar> \<le> 1 / 2"
proof -
  define r where "r = q - of_int \<lfloor>q\<rfloor>"
  have r: "0 \<le> r" "r < 1" unfolding r_def by linarith+
  have q: "q = of_int \<lfloor>q\<rfloor> + r" by (simp add: r_def)
  have "rne q = (if r < 1 / 2 then \<lfloor>q\<rfloor> else if 1 / 2 < r then \<lfloor>q\<rfloor> + 1
                 else if even \<lfloor>q\<rfloor> then \<lfloor>q\<rfloor> else \<lfloor>q\<rfloor> + 1)"
    by (simp add: rne_def Let_def r_def)
  then consider "rne q = \<lfloor>q\<rfloor>" "r \<le> 1 / 2" | "rne q = \<lfloor>q\<rfloor> + 1" "1 / 2 \<le> r"
    by (auto split: if_splits)
  then show ?thesis
  proof cases
    case 1
    then have "of_int (rne q) - q = - r" using q by simp
    then show ?thesis using r 1 by simp
  next
    case 2
    then have "of_int (rne q) - q = 1 - r" using q by simp
    then show ?thesis using r 2 by simp
  qed
qed

lemma rne_unique:
  assumes "\<bar>q - of_int m\<bar> < 1 / 2"
  shows "rne q = m"
proof (cases "of_int m \<le> q")
  case True
  with assms have "q < of_int m + 1 / 2" by simp
  with True have f: "\<lfloor>q\<rfloor> = m" by (intro floor_unique) simp_all
  have "q - of_int \<lfloor>q\<rfloor> < 1 / 2" using \<open>q < of_int m + 1 / 2\<close> f by simp
  then show ?thesis using f by (simp add: rne_def Let_def)
next
  case False
  with assms have lo: "of_int m - 1 / 2 < q" and hi: "q < of_int m" by simp_all
  have f: "\<lfloor>q\<rfloor> = m - 1" using lo hi by (intro floor_unique) simp_all
  have "1 / 2 < q - of_int \<lfloor>q\<rfloor>" using lo f by simp
  then show ?thesis using f by (simp add: rne_def Let_def)
qed

lemma rne_ge_1: "1 \<le> q \<Longrightarrow> 1 \<le> rne q"
proof -
  assume "1 \<le> q"
  then have "1 \<le> \<lfloor>q\<rfloor>" by simp
  then show ?thesis by (simp add: rne_def Let_def)
qed

lemma rne_le_m1: 
  assumes "q \<le> - 1" shows "rne q \<le> - 1"
proof (cases "q = - 1")
  case True
  have "rne (of_int (- 1)) = - 1" by (rule rne_of_int)
  then show ?thesis using True by simp
next
  case False
  with assms have "q < - 1" by simp
  then have "\<lfloor>q\<rfloor> < - 1" by (simp add: floor_less_iff)
  then show ?thesis by (simp add: rne_def Let_def)
qed

lemma rne_nonneg: "0 \<le> q \<Longrightarrow> 0 \<le> rne q"
proof -
  assume "0 \<le> q"
  then have "0 \<le> \<lfloor>q\<rfloor>" by simp
  then show ?thesis by (simp add: rne_def Let_def)
qed

lemma isqrt_spec: "0 \<le> n \<Longrightarrow> 0 \<le> isqrt n \<and> isqrt n * isqrt n \<le> n \<and> n < (isqrt n + 1) * (isqrt n + 1)"
proof (induction n rule: isqrt.induct)
  case (1 n)
  show ?case
  proof (cases "n < 2")
    case True
    with "1.prems" have "n = 0 \<or> n = 1" by auto
    then show ?thesis by (auto simp: isqrt.simps [of 0] isqrt.simps [of 1])
  next
    case False
    define s where "s = isqrt (n div 4)"
    have "0 \<le> n div 4" using False by simp
    with "1.IH" [OF False] have s: "0 \<le> s" "s * s \<le> n div 4" "n div 4 < (s + 1) * (s + 1)"
      by (simp_all add: s_def)
    have lo: "(2 * s) * (2 * s) \<le> n"
    proof -
      have "4 * (s * s) \<le> 4 * (n div 4)" using s(2) by simp
      also have "\<dots> \<le> n" by simp
      finally show ?thesis by (simp add: algebra_simps)
    qed
    have hi: "n < (2 * s + 2) * (2 * s + 2)"
    proof -
      have "n div 4 + 1 \<le> (s + 1) * (s + 1)" using s(3) by simp
      then have "4 * (n div 4) + 4 \<le> 4 * ((s + 1) * (s + 1))" by simp
      moreover have "n < 4 * (n div 4) + 4" by simp
      ultimately show ?thesis by (simp add: algebra_simps)
    qed
    have eq: "isqrt n = (if (2 * s + 1) * (2 * s + 1) \<le> n then 2 * s + 1 else 2 * s)"
      using False by (subst isqrt.simps) (simp add: Let_def s_def)
    show ?thesis
    proof (cases "(2 * s + 1) * (2 * s + 1) \<le> n")
      case True
      then show ?thesis using eq hi s(1) by (simp add: algebra_simps)
    next
      case False
      then show ?thesis using eq lo s(1) by (simp add: algebra_simps)
    qed
  qed
qed

lemma isqrt_unique:
  assumes "0 \<le> m" "m * m \<le> n" "n < (m + 1) * (m + 1)"
  shows "isqrt n = m"
proof -
  have n: "0 \<le> n" using assms(1,2) by (meson mult_nonneg_nonneg order_trans)
  from isqrt_spec [OF n]
  have s: "0 \<le> isqrt n" "isqrt n * isqrt n \<le> n" "n < (isqrt n + 1) * (isqrt n + 1)" by auto
  have "\<not> isqrt n < m"
  proof
    assume "isqrt n < m"
    then have "isqrt n + 1 \<le> m" by simp
    then have "(isqrt n + 1) * (isqrt n + 1) \<le> m * m"
      using s(1) by (intro mult_mono) simp_all
    with s(3) assms(2) show False by linarith
  qed
  moreover have "\<not> m < isqrt n"
  proof
    assume "m < isqrt n"
    then have "m + 1 \<le> isqrt n" by simp
    then have "(m + 1) * (m + 1) \<le> isqrt n * isqrt n"
      using assms(1) by (intro mult_mono) simp_all
    with s(2) assms(3) show False by linarith
  qed
  ultimately show ?thesis by linarith
qed

lemma fl_0 [simp]: "fl 0 = Finite 0"
  by (simp add: fl_def)

lemma fl_eqI:
  assumes "2 powi k \<le> \<bar>q\<bar>" and "\<bar>q\<bar> < 2 powi (k + 1)"
    and "e = max (k - 52) (- 1074)"
    and "\<bar>q / 2 powi e - of_int m\<bar> < 1 / 2"
    and "\<bar>of_int m * 2 powi e\<bar> < (2::rat) powi 1024"
  shows "fl q = Finite (of_int m * 2 powi e)"
proof -
  have "0 < \<bar>q\<bar>" using assms(1) pow2_pos [of k] by linarith
  then have q: "q \<noteq> 0" by simp
  have k: "ilog2 \<bar>q\<bar> = k" using assms(1,2) by (rule ilog2_unique)
  have m: "rne (q / 2 powi e) = m" using assms(4) by (rule rne_unique)
  show ?thesis
    using q k m assms(3,5) by (simp add: fl_def Let_def)
qed

lemma fl_exact:
  assumes "\<bar>m\<bar> < 2 ^ 53" and "- 1074 \<le> e" and "\<bar>of_int m * 2 powi e\<bar> < (2::rat) powi 1024"
  shows "fl (of_int m * 2 powi e) = Finite (of_int m * 2 powi e)"
proof (cases "m = 0")
  case True
  then show ?thesis by simp
next
  case False
  define q :: rat where "q = of_int m * 2 powi e"
  have q0: "q \<noteq> 0" using False by (simp add: q_def)
  then have qpos: "0 < \<bar>q\<bar>" by simp
  define k where "k = ilog2 \<bar>q\<bar>"
  from ilog2_bounds [OF qpos] have kb: "2 powi k \<le> \<bar>q\<bar>" "\<bar>q\<bar> < 2 powi (k + 1)"
    by (simp_all add: k_def)
  define e' where "e' = max (k - 52) (- 1074)"
  have "\<bar>q\<bar> = of_int \<bar>m\<bar> * 2 powi e" by (simp add: q_def abs_mult)
  also have "\<dots> < 2 ^ 53 * 2 powi e"
  proof -
    have "(of_int \<bar>m\<bar> :: rat) < of_int (2 ^ 53)" using assms(1) by (simp only: of_int_less_iff)
    then show ?thesis by simp
  qed
  also have "\<dots> = 2 powi (53 + e)" by (simp add: power_int_add)
  finally have "(2::rat) powi k < 2 powi (53 + e)" using kb(1) by linarith
  then have "k < 53 + e"
    by (metis pow2_mono not_le not_less)
  then have le: "e' \<le> e" using assms(2) by (simp add: e'_def)
  have "q / 2 powi e' = of_int m * 2 powi (e - e')"
    by (simp add: q_def power_int_diff)
  also have "\<dots> = of_int (m * 2 ^ nat (e - e'))" using le by (simp add: pow2_of_nat)
  finally have "rne (q / 2 powi e') = m * 2 ^ nat (e - e')" by (simp only: rne_of_int)
  then have "of_int (rne (q / 2 powi e')) * 2 powi e' = of_int m * 2 powi (e - e') * (2::rat) powi e'"
    using le by (simp add: pow2_of_nat)
  also have "\<dots> = q" by (simp add: q_def mult.assoc flip: power_int_add)
  finally have r: "of_int (rne (q / 2 powi e')) * 2 powi e' = q" .
  show ?thesis
    using q0 r assms(3) unfolding q_def [symmetric]
    by (simp add: fl_def Let_def k_def [symmetric] e'_def [symmetric])
qed

lemma fl_representable: "representable q \<Longrightarrow> fl q = Finite q"
  unfolding representable_def using fl_exact by blast

lemma fl_of_int:
  assumes "\<bar>m\<bar> < 2 ^ 53" shows "fl (of_int m) = Finite (of_int m)"
proof -
  have "\<bar>of_int m :: rat\<bar> < of_int (2 ^ 53)" using assms by (simp only: of_int_less_iff flip: of_int_abs)
  also have "\<dots> < 2 powi 1024" by simp
  finally have "\<bar>of_int m * 2 powi 0 :: rat\<bar> < 2 powi 1024" by simp
  with fl_exact [of m 0] assms show ?thesis by simp
qed

lemma fl_1 [simp]: "fl 1 = Finite 1"
  using fl_of_int [of 1] by simp

lemma sqrt_rne_0 [simp]: "sqrt_rne 0 = Finite 0"
  by (simp add: sqrt_rne_def)

lemma isqrt_floor:
  assumes "0 \<le> m" "of_int (m * m) \<le> t" "t < of_int ((m + 1) * (m + 1))"
  shows "isqrt \<lfloor>t :: rat\<rfloor> = m"
proof -
  have "m * m \<le> \<lfloor>t\<rfloor>" using assms(2) by (simp only: le_floor_iff)
  moreover have "\<lfloor>t\<rfloor> < (m + 1) * (m + 1)" using assms(3) by (simp only: floor_less_iff)
  ultimately show ?thesis using assms(1) by (intro isqrt_unique)
qed

lemma sqrt_rne_down:
  assumes "2 powi k \<le> q" and "q < 2 powi (k + 1)"
    and "e = max (k div 2 - 52) (- 1074)"
    and "t = q / 2 powi (2 * e)"
    and "0 \<le> m" and "of_int (m * m) \<le> t"
    and "t < (of_int m + 1 / 2) * (of_int m + 1 / 2)"
  shows "sqrt_rne q = Finite (of_int m * 2 powi e)"
proof -
  have "0 < q" using assms(1) pow2_pos [of k] by linarith
  then have q: "q \<noteq> 0" by simp
  have k: "ilog2 q = k" using assms(1,2) by (rule ilog2_unique)
  have "(of_int m + 1 / 2) * (of_int m + 1 / 2) \<le> (of_int ((m + 1) * (m + 1)) :: rat)"
    using assms(5) by (simp add: algebra_simps)
  with assms(7) have "t < of_int ((m + 1) * (m + 1))" by linarith
  with assms(5,6) have i: "isqrt \<lfloor>t\<rfloor> = m" by (rule isqrt_floor)
  show ?thesis
    using q k i assms(7) by (simp add: sqrt_rne_def Let_def assms(3) [symmetric] assms(4) [symmetric])
qed

lemma sqrt_rne_up:
  assumes "2 powi k \<le> q" and "q < 2 powi (k + 1)"
    and "e = max (k div 2 - 52) (- 1074)"
    and "t = q / 2 powi (2 * e)"
    and "0 \<le> m" and "t < of_int ((m + 1) * (m + 1))"
    and "(of_int m + 1 / 2) * (of_int m + 1 / 2) < t"
  shows "sqrt_rne q = Finite (of_int (m + 1) * 2 powi e)"
proof -
  have "0 < q" using assms(1) pow2_pos [of k] by linarith
  then have q: "q \<noteq> 0" by simp
  have k: "ilog2 q = k" using assms(1,2) by (rule ilog2_unique)
  have "(of_int (m * m) :: rat) \<le> (of_int m + 1 / 2) * (of_int m + 1 / 2)"
    using assms(5) by (simp add: algebra_simps)
  with assms(7) have "of_int (m * m) \<le> t" by linarith
  with assms(5,6) have i: "isqrt \<lfloor>t\<rfloor> = m" by (intro isqrt_floor)
  have "\<not> t < (of_int m + 1 / 2) * (of_int m + 1 / 2)" using assms(7) by simp
  then show ?thesis
    using q k i assms(7) by (simp add: sqrt_rne_def Let_def assms(3) [symmetric] assms(4) [symmetric])
qed

lemma sqrt_rne_int_square:
  assumes "0 < m" and "m < 2 ^ 53"
  shows "sqrt_rne (of_int (m * m)) = Finite (of_int m)"
proof -
  define q :: rat where "q = of_int (m * m)"
  have qpos: "0 < q" using assms(1) by (simp add: q_def)
  define k where "k = ilog2 q"
  from ilog2_bounds [OF qpos] have kb: "2 powi k \<le> q" "q < 2 powi (k + 1)"
    by (simp_all add: k_def)
  define e where "e = max (k div 2 - 52) (- 1074)"
  have "m * m < 2 ^ 53 * 2 ^ 53"
    using assms by (intro mult_strict_mono) simp_all
  then have "(of_int (m * m) :: rat) < of_int (2 ^ 53 * 2 ^ 53)" by (simp only: of_int_less_iff)
  then have "q < 2 powi 106" by (simp add: q_def)
  with kb(1) have "(2::rat) powi k < 2 powi 106" by linarith
  then have "k < 106" by (metis pow2_mono not_le not_less)
  then have e0: "e \<le> 0" by (simp add: e_def)
  define M where "M = m * 2 ^ nat (- e)"
  have M0: "0 \<le> M" using assms(1) by (simp add: M_def)
  have p: "(2::rat) powi (- e) = 2 ^ nat (- e)" using e0 by (simp add: pow2_of_nat)
  have Mr: "(of_int M :: rat) = of_int m * 2 powi (- e)" by (simp add: M_def p)
  define t where "t = q / 2 powi (2 * e)"
  have "t = q * (2 powi (- e) * 2 powi (- e))"
    by (simp add: t_def power_int_minus field_simps flip: power_int_add)
  also have "\<dots> = of_int M * of_int M" by (simp add: Mr q_def algebra_simps)
  finally have t: "t = of_int (M * M)" by simp
  have lt: "t < (of_int M + 1 / 2) * (of_int M + 1 / 2)"
    using M0 by (simp add: t algebra_simps)
  have "sqrt_rne q = Finite (of_int M * 2 powi e)"
    using kb e_def t_def M0 _ lt by (rule sqrt_rne_down) (simp add: t)
  also have "of_int M * (2::rat) powi e = of_int m"
    by (simp add: Mr mult.assoc flip: power_int_add)
  finally show ?thesis by (simp add: q_def)
qed

lemma fl_numeral:
  "(numeral n :: int) < 2 ^ 53 \<Longrightarrow> fl (numeral n) = Finite (numeral n)"
  using fl_of_int [of "numeral n"] by simp

lemma fl_neg_numeral:
  "(numeral n :: int) < 2 ^ 53 \<Longrightarrow> fl (- numeral n) = Finite (- numeral n)"
  using fl_of_int [of "- numeral n"] by simp

lemma sqrt_rne_25: "sqrt_rne 25 = Finite 5"
  using sqrt_rne_int_square [of 5] by simp

lemma sqrt_rne_1 [simp]: "sqrt_rne 1 = Finite 1"
  using sqrt_rne_int_square [of 1] by simp

text \<open>The literal \<^verbatim>\<open>0.3\<close> denotes the double that three tenths rounds to.\<close>

lemma default_threshold_literal: "fl (3 / 10) = default_threshold"
  using fl_eqI [of "- 2" "3 / 10" "- 54" 5404319552844595]
  by (simp add: default_threshold_def)

section \<open>Arithmetic of the similarity\<close>

lemma num_add_Finite [simp]: "num_add (Finite x) (Finite y) = fl (x + y)"
  by (simp add: num_add_def)

lemma num_mul_Finite [simp]: "num_mul (Finite x) (Finite y) = fl (x * y)"
  by (simp add: num_mul_def)

lemma num_div_Finite [simp]:
  "num_div (Finite x) (Finite y) = (if y = 0 then inf_of_sign (rat_sign x) else fl (x / y))"
  by (simp add: num_div_def)

lemma num_sqrt_Finite [simp]: "num_sqrt (Finite x) = (if x < 0 then NaN else sqrt_rne x)"
  by (simp add: num_sqrt_def)

lemma num_less_Finite [simp]: "num_less (Finite x) (Finite y) \<longleftrightarrow> x < y"
  by (simp add: num_less_def)

lemma num_less_NaN [simp]: "\<not> num_less NaN x" "\<not> num_less x NaN"
  by (cases x; simp add: num_less_def)+

lemma num_NaN [simp]:
  "num_add NaN x = NaN" "num_add x NaN = NaN"
  "num_mul NaN x = NaN" "num_mul x NaN = NaN"
  "num_div NaN x = NaN" "num_div x NaN = NaN"
  "num_sub NaN x = NaN" "num_sub x NaN = NaN"
  by (cases x; simp add: num_add_def num_mul_def num_div_def num_sub_def num_neg_def)+

lemma num_mul_commute: "num_mul a b = num_mul b a"
  by (cases a; cases b) (simp_all add: num_mul_def mult.commute)

lemma dot_commute:
  "foldl (\<lambda>sum (a, b). num_add sum (num_mul a b)) s (zip xs ys) =
   foldl (\<lambda>sum (a, b). num_add sum (num_mul a b)) s (zip ys xs)"
proof (induction xs arbitrary: s ys)
  case Nil
  then show ?case by simp
next
  case (Cons x xs)
  then show ?case by (cases ys) (simp_all add: num_mul_commute)
qed

lemma cosineSimilarity_commute: "cosineSimilarity a b = cosineSimilarity b a"
proof (cases "length a = length b")
  case True
  then show ?thesis
    by (simp add: cosineSimilarity_def Let_def dot_commute [of _ a b] num_mul_commute)
next
  case False
  then show ?thesis by (auto simp: cosineSimilarity_def)
qed

lemma dot_self:
  "foldl (\<lambda>sum (a, b). num_add sum (num_mul a b)) s (zip xs xs) =
   foldl (\<lambda>sum a. num_add sum (num_mul a a)) s xs"
  by (induction xs arbitrary: s) simp_all

lemma cosineSimilarity_self:
  "cosineSimilarity a a =
     (let s = foldl (\<lambda>sum x. num_add sum (num_mul x x)) (Finite 0) a
      in Inr (num_div s (num_mul (num_sqrt s) (num_sqrt s))))"
  by (simp add: cosineSimilarity_def Let_def dot_self)

lemma num_mul_zero_left: "zero_or_NaN (num_mul (Finite 0) x)"
  by (cases x) (simp_all add: zero_or_NaN_def num_mul_def num_sign_def rat_sign_def inf_of_sign_def)

lemma num_mul_zero_right: "zero_or_NaN (num_mul x (Finite 0))"
  using num_mul_zero_left [of x] by (simp add: num_mul_commute)

lemma num_add_zero_or_NaN: "zero_or_NaN a \<Longrightarrow> zero_or_NaN b \<Longrightarrow> zero_or_NaN (num_add a b)"
  by (auto simp: zero_or_NaN_def)

lemma num_div_zero_or_NaN: "zero_or_NaN a \<Longrightarrow> zero_or_NaN b \<Longrightarrow> num_div a b = NaN"
  by (auto simp: zero_or_NaN_def rat_sign_def inf_of_sign_def)

lemma dot_zero_left:
  assumes "\<forall>x \<in> set xs. x = Finite 0" and "zero_or_NaN s"
  shows "zero_or_NaN (foldl (\<lambda>sum (a, b). num_add sum (num_mul a b)) s (zip xs ys))"
  using assms
proof (induction xs arbitrary: s ys)
  case Nil
  then show ?case by simp
next
  case (Cons x xs)
  show ?case
  proof (cases ys)
    case Nil
    then show ?thesis using Cons.prems by simp
  next
    case (Cons y ys')
    have "zero_or_NaN (num_add s (num_mul x y))"
      using Cons.prems num_mul_zero_left [of y] by (simp add: num_add_zero_or_NaN)
    then show ?thesis using Cons.IH [of _ ys'] Cons.prems Cons by simp
  qed
qed

lemma sumsq_zero:
  assumes "\<forall>x \<in> set xs. x = Finite 0"
  shows "foldl (\<lambda>sum a. num_add sum (num_mul a a)) (Finite 0) xs = Finite 0"
  using assms by (induction xs) simp_all

lemma cosineSimilarity_zero_left:
  assumes "length a = length b" and "\<forall>x \<in> set a. x = Finite 0"
  shows "cosineSimilarity a b = Inr NaN"
proof -
  have d: "zero_or_NaN (foldl (\<lambda>sum (a, b). num_add sum (num_mul a b)) (Finite 0) (zip a b))"
    using assms(2) by (intro dot_zero_left) (simp_all add: zero_or_NaN_def)
  have m: "num_sqrt (foldl (\<lambda>sum a. num_add sum (num_mul a a)) (Finite 0) a) = Finite 0"
    using assms(2) by (simp add: sumsq_zero)
  show ?thesis
    using assms(1) d num_mul_zero_left
    by (simp add: cosineSimilarity_def Let_def m num_div_zero_or_NaN)
qed

lemma cosineSimilarity_zero:
  assumes "length a = length b"
    and "(\<forall>x \<in> set a. x = Finite 0) \<or> (\<forall>x \<in> set b. x = Finite 0)"
  shows "cosineSimilarity a b = Inr NaN"
  using assms cosineSimilarity_zero_left [of a b] cosineSimilarity_zero_left [of b a]
  by (auto simp: cosineSimilarity_commute [of a b])

section \<open>The comparator of the sort\<close>

lemma pow2_grid:
  assumes "- int n \<le> e"
  shows "(2::rat) powi e * 2 ^ n \<in> \<int>"
proof -
  have "(2::rat) powi e * 2 ^ n = 2 powi e * 2 powi (int n)" by simp
  also have "\<dots> = 2 powi (e + int n)" by (simp add: power_int_add)
  also have "\<dots> = of_int (2 ^ nat (e + int n))" using assms by (simp add: pow2_of_nat)
  finally show ?thesis by (simp only: Ints_of_int)
qed

lemma fl_grid: "on_grid (fl q)"
proof (cases "q = 0")
  case True
  then show ?thesis by (simp add: on_grid_def)
next
  case False
  define e where "e = max (ilog2 \<bar>q\<bar> - 52) (- 1074)"
  define m where "m = rne (q / 2 powi e)"
  have "- int 1074 \<le> e" by (simp add: e_def)
  then have "(2::rat) powi e * 2 ^ 1074 \<in> \<int>" by (rule pow2_grid)
  with Ints_of_int [of m] have "of_int m * ((2::rat) powi e * 2 ^ 1074) \<in> \<int>" by (rule Ints_mult)
  then have g: "of_int m * (2::rat) powi e * 2 ^ 1074 \<in> \<int>" by (simp only: mult.assoc)
  have "fl q = Finite (of_int m * 2 powi e) \<or> fl q = PosInf \<or> fl q = NegInf"
    using False by (simp only: fl_def Let_def e_def m_def if_False split: if_split, blast)
  then show ?thesis using g by (auto simp only: on_grid_def number.case)
qed

lemma num_div_grid: "on_grid (num_div a b)"
proof -
  have "on_grid (inf_of_sign s)" for s by (simp add: inf_of_sign_def on_grid_def)
  moreover have "on_grid (Finite 0)" "on_grid NaN" by (simp_all add: on_grid_def)
  ultimately show ?thesis
    by (cases a; cases b) (simp_all add: num_div_def fl_grid)
qed

lemma fl_sign:
  assumes "2 powi (- 1074) \<le> \<bar>d\<bar>"
  shows "num_less (Finite 0) (fl d) \<longleftrightarrow> 0 < d"
proof -
  have dpos: "0 < \<bar>d\<bar>" using assms pow2_pos [of "- 1074"] by linarith
  then have d0: "d \<noteq> 0" by simp
  define k where "k = ilog2 \<bar>d\<bar>"
  define e where "e = max (k - 52) (- 1074)"
  define m where "m = rne (d / 2 powi e)"
  from ilog2_bounds [OF dpos] have kb: "2 powi k \<le> \<bar>d\<bar>" by (simp add: k_def)
  have "(2::rat) powi (k - 52) \<le> 2 powi k" by (rule pow2_mono) simp
  with kb assms have ge: "2 powi e \<le> \<bar>d\<bar>" by (simp add: e_def max_def)
  have fl: "fl d = (if (2::rat) powi 1024 \<le> \<bar>of_int m * 2 powi e\<bar> then (if 0 < d then PosInf else NegInf)
                    else Finite (of_int m * 2 powi e))"
    using d0 by (simp only: fl_def Let_def k_def e_def m_def if_False)
  show ?thesis
  proof (cases "0 < d")
    case True
    with ge have "1 \<le> d / 2 powi e" by (simp add: pos_le_divide_eq)
    then have "1 \<le> m" unfolding m_def by (rule rne_ge_1)
    then have "0 < (of_int m :: rat) * 2 powi e" by simp
    then show ?thesis using True by (simp add: fl num_less_def)
  next
    case False
    with d0 have neg: "d < 0" by simp
    with ge have "d / 2 powi e \<le> - 1" by (simp add: pos_divide_le_eq)
    then have "m \<le> - 1" unfolding m_def by (rule rne_le_m1)
    then have "(of_int m :: rat) * 2 powi e < 0" by (simp add: mult_neg_pos)
    then show ?thesis using neg by (simp add: fl num_less_def)
  qed
qed

lemma grid_diff_generic:
  fixes x y :: rat
  assumes "x * 2 ^ n \<in> \<int>" and "y * 2 ^ n \<in> \<int>" and "x \<noteq> y"
  shows "1 \<le> \<bar>y - x\<bar> * 2 ^ n"
proof -
  from assms(1,2) obtain a b :: int where a: "x * 2 ^ n = of_int a" and b: "y * 2 ^ n = of_int b"
    by (auto elim!: Ints_cases)
  have eq: "(y - x) * 2 ^ n = of_int (b - a)" using a b by (simp add: algebra_simps)
  have "b - a \<noteq> 0"
  proof
    assume "b - a = 0"
    then have "x * 2 ^ n = y * 2 ^ n" using a b by simp
    then show False using assms(3) by simp
  qed
  then have "1 \<le> \<bar>b - a\<bar>" by simp
  then have "(of_int 1 :: rat) \<le> of_int \<bar>b - a\<bar>" by (simp only: of_int_le_iff)
  then have "(1::rat) \<le> \<bar>of_int (b - a)\<bar>" by simp
  then have "1 \<le> \<bar>(y - x) * 2 ^ n\<bar>" by (simp only: eq)
  then show ?thesis by (simp add: abs_mult)
qed

lemma grid_diff:
  assumes "x * 2 ^ 1074 \<in> \<int>" and "y * 2 ^ 1074 \<in> \<int>" and "x \<noteq> (y::rat)"
  shows "2 powi (- 1074) \<le> \<bar>y - x\<bar>"
proof -
  define g :: rat where "g = 2 ^ 1074"
  have g: "0 < g" by (simp add: g_def)
  have "1 \<le> \<bar>y - x\<bar> * g" unfolding g_def using assms by (rule grid_diff_generic)
  then have "1 / g \<le> \<bar>y - x\<bar>" using g by (simp add: pos_divide_le_eq)
  moreover have "(2::rat) powi (- 1074) = 1 / g"
    unfolding g_def by (simp only: power_int_minus power_int_numeral inverse_eq_divide)
  ultimately show ?thesis by simp
qed

lemma compare_sign:
  assumes "on_grid a" "on_grid b" "a \<noteq> NaN" "b \<noteq> NaN"
  shows "num_less (Finite 0) (num_sub b a) \<longleftrightarrow> num_less a b"
proof (cases a)
  case fa: (Finite x)
  show ?thesis
  proof (cases b)
    case fb: (Finite y)
    show ?thesis
    proof (cases "x = y")
      case True
      then show ?thesis by (simp add: fa fb num_sub_def num_neg_def)
    next
      case False
      have "2 powi (- 1074) \<le> \<bar>y - x\<bar>"
        using assms(1,2) False by (intro grid_diff) (simp_all add: fa fb on_grid_def)
      from fl_sign [OF this] show ?thesis by (simp add: fa fb num_sub_def num_neg_def)
    qed
  qed (use assms in \<open>simp_all add: fa num_sub_def num_neg_def num_add_def num_less_def\<close>)
next
  case PosInf
  then show ?thesis using assms by (cases b) (simp_all add: num_sub_def num_neg_def num_add_def num_less_def)
next
  case NegInf
  then show ?thesis using assms by (cases b) (simp_all add: num_sub_def num_neg_def num_add_def num_less_def)
next
  case NaN
  then show ?thesis using assms by simp
qed

lemma num_not_less_trans:
  assumes "b \<noteq> NaN" "\<not> num_less a b" "\<not> num_less b c"
  shows "\<not> num_less a c"
  using assms by (cases a; cases b; cases c) (auto simp: num_less_def)

lemma num_less_le_trans:
  assumes "c \<noteq> NaN" "\<not> num_less a c" "num_less a t"
  shows "num_less c t"
  using assms by (cases a; cases c; cases t) (auto simp: num_less_def)

section \<open>Scoring and ranking\<close>

lemma score_extend [simp]: "score (chunk.extend item (scored_chunk.fields s)) = s"
  by (simp add: chunk.extend_def scored_chunk.fields_def chunk.defs scored_chunk.defs)

lemma truncate_extend [simp]: "chunk.truncate (chunk.extend item (scored_chunk.fields s)) = item"
  by (cases item) (simp add: chunk.extend_def scored_chunk.fields_def chunk.truncate_def)

lemma fields_extend [simp]:
  "embedding (chunk.extend item (scored_chunk.fields s)) = embedding item"
  "text (chunk.extend item (scored_chunk.fields s)) = text item"
  "fileName (chunk.extend item (scored_chunk.fields s)) = fileName item"
  by (cases item; simp add: chunk.extend_def scored_chunk.fields_def)+

lemma score_all_mismatch:
  assumes "\<exists>item \<in> set store. length (embedding item) \<noteq> length q"
  shows "score_all q store = Inl (Error ''Vectors must have the same length'')"
  using assms
proof (induction store)
  case Nil
  then show ?case by simp
next
  case (Cons item items)
  show ?case
  proof (cases "length (embedding item) = length q")
    case True
    with Cons.prems have "\<exists>i \<in> set items. length (embedding i) \<noteq> length q" by auto
    with Cons.IH have "score_all q items = Inl (Error ''Vectors must have the same length'')" by simp
    then show ?thesis using True by (simp add: cosineSimilarity_def Let_def)
  next
    case False
    then show ?thesis by (auto simp: cosineSimilarity_def)
  qed
qed

lemma score_all_Inr:
  assumes "score_all q store = Inr scored"
  shows "map chunk.truncate scored = store
       \<and> (\<forall>c \<in> set scored. cosineSimilarity q (embedding c) = Inr (score c))"
  using assms
proof (induction store arbitrary: scored)
  case Nil
  then show ?case by simp
next
  case (Cons item items)
  from Cons.prems obtain s rest where s: "cosineSimilarity q (embedding item) = Inr s"
    and rest: "score_all q items = Inr rest"
    and scored: "scored = chunk.extend item (scored_chunk.fields s) # rest"
    by (auto split: sum.splits)
  from Cons.IH [OF rest] show ?case using s by (simp add: scored)
qed

lemma score_all_total:
  assumes "\<forall>item \<in> set store. length (embedding item) = length q"
  shows "\<exists>scored. score_all q store = Inr scored"
  using assms
proof (induction store)
  case Nil
  then show ?case by simp
next
  case (Cons item items)
  then obtain rest where "score_all q items = Inr rest" by auto
  moreover have "\<exists>s. cosineSimilarity q (embedding item) = Inr s"
    using Cons.prems by (simp add: cosineSimilarity_def Let_def)
  ultimately show ?case by auto
qed

lemma score_all_length: "score_all q store = Inr scored \<Longrightarrow> length scored = length store"
  using score_all_Inr [of q store scored] by (metis length_map)

lemma cosineSimilarity_grid: "cosineSimilarity a b = Inr s \<Longrightarrow> on_grid s"
  by (auto simp: cosineSimilarity_def Let_def num_div_grid split: if_splits)

lemma score_all_grid: "score_all q store = Inr scored \<Longrightarrow> \<forall>c \<in> set scored. on_grid (score c)"
  using score_all_Inr [of q store scored] cosineSimilarity_grid by blast

lemma set_insert_by [simp]: "set (insert_by cmp x ys) = insert x (set ys)"
  by (induction ys) auto

lemma length_insert_by [simp]: "length (insert_by cmp x ys) = Suc (length ys)"
  by (induction ys) auto

lemma set_sort_by [simp]: "set (sort_by cmp xs) = set xs"
  by (induction xs) (simp_all add: sort_by_def)

lemma length_sort_by [simp]: "length (sort_by cmp xs) = length xs"
  by (induction xs) (simp_all add: sort_by_def)

lemma sort_by_Nil_iff [simp]: "sort_by cmp xs = [] \<longleftrightarrow> xs = []"
  by (metis length_sort_by length_0_conv)

lemma compareFn_pos:
  "comparable x \<Longrightarrow> comparable y \<Longrightarrow>
   num_less (Finite 0) (compareFn x y) \<longleftrightarrow> num_less (score x) (score y)"
  by (simp add: compareFn_def comparable_def compare_sign)

lemma num_less_asym: "num_less a b \<Longrightarrow> \<not> num_less b a"
  by (cases a; cases b) (auto simp: num_less_def)

lemma sorted_insert_by:
  assumes "comparable x" "\<forall>y \<in> set ys. comparable y" "sorted_wrt ranks_above ys"
  shows "sorted_wrt ranks_above (insert_by compareFn x ys)"
  using assms
proof (induction ys)
  case Nil
  then show ?case by simp
next
  case (Cons y ys)
  have cy: "comparable y" using Cons.prems(2) by simp
  show ?case
  proof (cases "num_less (score x) (score y)")
    case True
    then have "ranks_above y x" by (simp add: ranks_above_def num_less_asym)
    moreover have "sorted_wrt ranks_above (insert_by compareFn x ys)"
      using Cons by simp
    ultimately show ?thesis
      using True Cons.prems cy by (simp add: compareFn_pos)
  next
    case False
    then have xy: "ranks_above x y" by (simp add: ranks_above_def)
    have "ranks_above x z" if "z \<in> set ys" for z
    proof -
      have "ranks_above y z" using Cons.prems(3) that by simp
      with xy cy show ?thesis
        unfolding ranks_above_def comparable_def by (metis num_not_less_trans)
    qed
    then show ?thesis
      using False xy Cons.prems cy by (simp add: compareFn_pos)
  qed
qed

lemma sorted_sort_by:
  assumes "\<forall>x \<in> set xs. comparable x"
  shows "sorted_wrt ranks_above (sort_by compareFn xs)"
  using assms
proof (induction xs)
  case Nil
  then show ?case by (simp add: sort_by_def)
next
  case (Cons x xs)
  then have "sorted_wrt ranks_above (sort_by compareFn xs)" by simp
  with Cons.prems have "sorted_wrt ranks_above (insert_by compareFn x (sort_by compareFn xs))"
    by (intro sorted_insert_by) simp_all
  then show ?case by (simp add: sort_by_def)
qed

lemma sort_by_head_highest:
  assumes "\<forall>x \<in> set xs. comparable x" and "sort_by compareFn xs = best # rest"
  shows "\<forall>c \<in> set xs. \<not> num_less (score best) (score c)"
proof
  fix c assume "c \<in> set xs"
  then have "c \<in> set (best # rest)" using assms(2) by (metis set_sort_by)
  moreover have "sorted_wrt ranks_above (best # rest)"
    using sorted_sort_by [OF assms(1)] assms(2) by simp
  ultimately show "\<not> num_less (score best) (score c)"
    by (auto simp: ranks_above_def dest: num_less_asym)
qed

lemma insert_by_no_swap:
  assumes "\<forall>y \<in> set ys. \<not> num_less (Finite 0) (cmp x y)"
  shows "insert_by cmp x ys = x # ys"
  using assms by (cases ys) simp_all

lemma sort_by_all_NaN:
  assumes "\<forall>x \<in> set xs. score x = NaN"
  shows "sort_by compareFn xs = xs"
  using assms
proof (induction xs)
  case Nil
  then show ?case by (simp add: sort_by_def)
next
  case (Cons x xs)
  then have "sort_by compareFn xs = xs" by simp
  moreover have "insert_by compareFn x xs = x # xs"
    using Cons.prems by (intro insert_by_no_swap) (simp add: compareFn_def)
  ultimately show ?case by (simp add: sort_by_def)
qed

section \<open>Retrieval\<close>

lemma findRelevantChunks_scored:
  assumes "embedQuery env question = Inr q" and "score_all q (vectorStore w) = Inr scored"
  shows "findRelevantChunks env question topK threshold w =
           (Inr (case slice0 topK (sort_by compareFn scored) of
                   [] \<Rightarrow> []
                 | r # rs \<Rightarrow> if num_less (score r) threshold then [] else r # rs),
            invoke (EmbedCall question) w)"
  using assms by (simp add: findRelevantChunks_def Let_def split: list.splits)

lemma findRelevantChunks_mismatch:
  assumes "embedQuery env question = Inr q"
    and "\<exists>item \<in> set (vectorStore w). length (embedding item) \<noteq> length q"
  shows "fst (findRelevantChunks env question topK threshold w) =
           Inl (Error ''Vectors must have the same length'')"
  using assms(1) score_all_mismatch [OF assms(2)] by (simp add: findRelevantChunks_def)

lemma slice0_pos: "1 \<le> topK \<Longrightarrow> slice0 topK (x # xs) = x # take (nat topK - 1) xs"
  by (cases "nat topK") (simp_all add: slice0_def)

lemma highest_below_iff:
  assumes "\<forall>c \<in> set scored. comparable c" and "sort_by compareFn scored = best # rest"
  shows "num_less (score best) threshold \<longleftrightarrow> highest_score_below scored threshold"
proof
  assume b: "num_less (score best) threshold"
  have ne: "scored \<noteq> []" using assms(2) by (auto simp: sort_by_def)
  have "num_less (score c) threshold" if "c \<in> set scored" for c
  proof -
    have "\<not> num_less (score best) (score c)"
      using sort_by_head_highest [OF assms] that by blast
    moreover have "score c \<noteq> NaN" using assms(1) that by (simp add: comparable_def)
    ultimately show ?thesis using b by (metis num_less_le_trans)
  qed
  with ne show "highest_score_below scored threshold" by (simp add: highest_score_below_def)
next
  assume "highest_score_below scored threshold"
  moreover have "best \<in> set scored" using assms(2) by (metis set_sort_by list.set_intros(1))
  ultimately show "num_less (score best) threshold" by (simp add: highest_score_below_def)
qed

lemma fl_m1 [simp]: "fl (- 1) = Finite (- 1)"
  using fl_of_int [of "- 1"] by simp

lemma demo_scores:
  "score_all [Finite 3, Finite 4] demo_store =
     Inr [chunk.extend (demo_store ! 0) (scored_chunk.fields (Finite 1)),
          chunk.extend (demo_store ! 1) (scored_chunk.fields (Finite 0))]"
  by (simp add: demo_store_def cosineSimilarity_def Let_def fl_numeral fl_neg_numeral sqrt_rne_25)

section \<open>Normalising the model's labels\<close>

lemma whitespace_lower: "isWhiteSpace c \<Longrightarrow> lower_char c = c"
  by (auto simp: isWhiteSpace_def lower_char_def Let_def)

lemma lower_char_not_whitespace:
  "lower_char c = d \<Longrightarrow> \<not> isWhiteSpace d \<Longrightarrow> \<not> isWhiteSpace c"
  using whitespace_lower by auto

lemma trim_core:
  assumes "core \<noteq> []" "\<not> isWhiteSpace (hd core)" "\<not> isWhiteSpace (last core)"
    and "\<forall>c \<in> set l. isWhiteSpace c" "\<forall>c \<in> set r. isWhiteSpace c"
  shows "trim (l @ core @ r) = core"
proof -
  have a: "dropWhile isWhiteSpace (l @ core @ r) = core @ r"
    using assms(1,2,4) by (cases core) (simp_all add: dropWhile_append3 dropWhile_append2)
  have "rev core \<noteq> []" "\<not> isWhiteSpace (hd (rev core))"
    using assms(1,3) by (simp_all add: hd_rev)
  then have "dropWhile isWhiteSpace (rev core) = rev core"
    by (cases "rev core") simp_all
  moreover have "dropWhile isWhiteSpace (rev r @ rev core) = dropWhile isWhiteSpace (rev core)"
    using assms(5) by (intro dropWhile_append2) simp
  ultimately have b: "dropWhile isWhiteSpace (rev r @ rev core) = rev core" by simp
  show ?thesis by (simp add: trim_def a b)
qed

lemma trim_split:
  "\<exists>l r. s = l @ trim s @ r \<and> (\<forall>c \<in> set l. isWhiteSpace c) \<and> (\<forall>c \<in> set r. isWhiteSpace c)"
proof -
  define l where "l = takeWhile isWhiteSpace s"
  define rest where "rest = dropWhile isWhiteSpace s"
  define r where "r = rev (takeWhile isWhiteSpace (rev rest))"
  have "trim s @ r = rev (takeWhile isWhiteSpace (rev rest) @ dropWhile isWhiteSpace (rev rest))"
    by (simp only: trim_def r_def rest_def rev_append)
  also have "\<dots> = rev (rev rest)" by (simp only: takeWhile_dropWhile_id)
  also have "\<dots> = rest" by simp
  finally have "rest = trim s @ r" by simp
  moreover have "s = l @ rest" by (simp add: l_def rest_def)
  moreover have "\<forall>c \<in> set l. isWhiteSpace c" by (auto simp: l_def dest: set_takeWhileD)
  moreover have "\<forall>c \<in> set r. isWhiteSpace c" by (auto simp: r_def dest: set_takeWhileD)
  ultimately show ?thesis by blast
qed

lemma normalized_iff:
  assumes "label \<noteq> []" "\<not> isWhiteSpace (hd label)" "\<not> isWhiteSpace (last label)"
  shows "toLowerCase (trim raw) = label \<longleftrightarrow>
         (\<exists>l core r. raw = l @ core @ r \<and> (\<forall>c \<in> set l. isWhiteSpace c)
            \<and> (\<forall>c \<in> set r. isWhiteSpace c) \<and> map lower_char core = label)"
proof
  assume "toLowerCase (trim raw) = label"
  then have "map lower_char (trim raw) = label" by (simp add: toLowerCase_def)
  with trim_split [of raw] show "\<exists>l core r. raw = l @ core @ r \<and> (\<forall>c \<in> set l. isWhiteSpace c)
            \<and> (\<forall>c \<in> set r. isWhiteSpace c) \<and> map lower_char core = label" by blast
next
  assume "\<exists>l core r. raw = l @ core @ r \<and> (\<forall>c \<in> set l. isWhiteSpace c)
            \<and> (\<forall>c \<in> set r. isWhiteSpace c) \<and> map lower_char core = label"
  then obtain l core r where raw: "raw = l @ core @ r"
    and l: "\<forall>c \<in> set l. isWhiteSpace c" and r: "\<forall>c \<in> set r. isWhiteSpace c"
    and core: "map lower_char core = label" by blast
  have ne: "core \<noteq> []" using core assms(1) by auto
  have "lower_char (hd core) = hd label" using core ne by (metis hd_map)
  then have h: "\<not> isWhiteSpace (hd core)" using assms(2) lower_char_not_whitespace by blast
  have "lower_char (last core) = last label" using core ne by (metis last_map)
  then have t: "\<not> isWhiteSpace (last core)" using assms(3) lower_char_not_whitespace by blast
  have "trim raw = core" unfolding raw using ne h t l r by (rule trim_core)
  then show "toLowerCase (trim raw) = label" using core by (simp add: toLowerCase_def)
qed

lemma validateQuestion_result:
  "validationChain env query = Inr raw \<Longrightarrow>
   validateQuestion env query w = (Inr (toLowerCase (trim raw) = ''valid''), invoke (ValidationCall query) w)"
  by (simp add: validateQuestion_def)


lemma allowed_roles:
  "set (map fst agentPrompts) =
     {''customer_support'', ''sales_agent'', ''marketing_agent'', ''technical_expert'', ''general_info''}"
  by (simp add: agentPrompts_def)

lemma char_code_iff:
  "(of_char d :: nat) = k \<Longrightarrow> c = d \<longleftrightarrow> (of_char c :: nat) = k"
  by (metis of_char_eq_iff)

lemma isWhiteSpace_iff:
  "isWhiteSpace c \<longleftrightarrow>
     c \<in> {CHR 0x09, CHR 0x0A, CHR 0x0B, CHR 0x0C, CHR 0x0D, CHR 0x20, CHR 0xA0}"
proof -
  have codes:
    "(of_char c :: nat) = 9 \<longleftrightarrow> c = CHR 0x09" "(of_char c :: nat) = 10 \<longleftrightarrow> c = CHR 0x0A"
    "(of_char c :: nat) = 11 \<longleftrightarrow> c = CHR 0x0B" "(of_char c :: nat) = 12 \<longleftrightarrow> c = CHR 0x0C"
    "(of_char c :: nat) = 13 \<longleftrightarrow> c = CHR 0x0D" "(of_char c :: nat) = 32 \<longleftrightarrow> c = CHR 0x20"
    "(of_char c :: nat) = 160 \<longleftrightarrow> c = CHR 0xA0"
    by (rule char_code_iff [symmetric], simp)+
  show ?thesis by (simp only: isWhiteSpace_def insert_iff empty_iff codes)
qed

lemma lower_char_letter:
  assumes "97 \<le> (of_char d :: nat)" and "(of_char d :: nat) \<le> 122"
  shows "lower_char c = d \<longleftrightarrow> c = d \<or> c = char_of (of_char d - 32 :: nat)"
proof -
  define n :: nat where "n = of_char c"
  have n: "n < 256" by (simp add: n_def)
  have c: "c = char_of n" by (simp add: n_def)
  show ?thesis
  proof (cases "(65 \<le> n \<and> n \<le> 90) \<or> (192 \<le> n \<and> n \<le> 222 \<and> n \<noteq> 215)")
    case True
    then have l: "lower_char c = char_of (n + 32)" unfolding n_def by (auto simp: lower_char_def Let_def)
    have "n + 32 < 256" using True by auto
    then have o: "(of_char (char_of (n + 32)) :: nat) = n + 32" by simp
    have "c \<noteq> d" using True assms by (auto simp: n_def)
    moreover have "char_of (n + 32) = d \<longleftrightarrow> n + 32 = of_char d"
      using o by (metis char_of_char)
    moreover have "c = char_of (of_char d - 32 :: nat) \<longleftrightarrow> n = of_char d - 32"
    proof
      assume "c = char_of (of_char d - 32 :: nat)"
      then have "n = (of_char (char_of (of_char d - 32 :: nat)) :: nat)" by (simp add: n_def)
      also have "\<dots> = of_char d - 32" using assms by simp
      finally show "n = of_char d - 32" .
    next
      assume "n = of_char d - 32"
      then show "c = char_of (of_char d - 32 :: nat)" using c by simp
    qed
    ultimately show ?thesis using l assms by auto
  next
    case False
    then have l: "lower_char c = c" unfolding n_def by (auto simp: lower_char_def Let_def)
    have "c \<noteq> char_of (of_char d - 32 :: nat)"
    proof
      assume "c = char_of (of_char d - 32 :: nat)"
      then have "n = (of_char (char_of (of_char d - 32 :: nat)) :: nat)" by (simp add: n_def)
      also have "\<dots> = of_char d - 32" using assms by simp
      finally show False using False assms by auto
    qed
    then show ?thesis using l by auto
  qed
qed

lemma upper_letters:
  "char_of (86 :: nat) = CHR ''V''"
  "char_of (65 :: nat) = CHR ''A''"
  "char_of (76 :: nat) = CHR ''L''"
  "char_of (73 :: nat) = CHR ''I''"
  "char_of (68 :: nat) = CHR ''D''"
  by code_simp+

lemma lower_char_valid:
  "lower_char c = CHR ''v'' \<longleftrightarrow> c = CHR ''v'' \<or> c = CHR ''V''"
  "lower_char c = CHR ''a'' \<longleftrightarrow> c = CHR ''a'' \<or> c = CHR ''A''"
  "lower_char c = CHR ''l'' \<longleftrightarrow> c = CHR ''l'' \<or> c = CHR ''L''"
  "lower_char c = CHR ''i'' \<longleftrightarrow> c = CHR ''i'' \<or> c = CHR ''I''"
  "lower_char c = CHR ''d'' \<longleftrightarrow> c = CHR ''d'' \<or> c = CHR ''D''"
  using lower_char_letter [of "CHR ''v''" c] lower_char_letter [of "CHR ''a''" c]
    lower_char_letter [of "CHR ''l''" c] lower_char_letter [of "CHR ''i''" c]
    lower_char_letter [of "CHR ''d''" c]
  by (simp_all add: upper_letters)

lemma map5_iff:
  assumes "\<And>c. f c = a1 \<longleftrightarrow> P1 c" "\<And>c. f c = a2 \<longleftrightarrow> P2 c" "\<And>c. f c = a3 \<longleftrightarrow> P3 c"
    "\<And>c. f c = a4 \<longleftrightarrow> P4 c" "\<And>c. f c = a5 \<longleftrightarrow> P5 c"
  shows "map f core = [a1, a2, a3, a4, a5] \<longleftrightarrow>
     (\<exists>c1 c2 c3 c4 c5. core = [c1, c2, c3, c4, c5] \<and> P1 c1 \<and> P2 c2 \<and> P3 c3 \<and> P4 c4 \<and> P5 c5)"
  by (auto simp: map_eq_Cons_conv assms)

lemma normalized_five:
  assumes nw: "\<not> isWhiteSpace a1" "\<not> isWhiteSpace a5"
    and ws: "\<And>c. isWhiteSpace c \<longleftrightarrow> c \<in> WS"
    and p: "\<And>c. lower_char c = a1 \<longleftrightarrow> P1 c" "\<And>c. lower_char c = a2 \<longleftrightarrow> P2 c"
      "\<And>c. lower_char c = a3 \<longleftrightarrow> P3 c" "\<And>c. lower_char c = a4 \<longleftrightarrow> P4 c"
      "\<And>c. lower_char c = a5 \<longleftrightarrow> P5 c"
  shows "toLowerCase (trim raw) = [a1, a2, a3, a4, a5] \<longleftrightarrow>
     (\<exists>l c1 c2 c3 c4 c5 r. raw = l @ [c1, c2, c3, c4, c5] @ r \<and> set l \<subseteq> WS \<and> set r \<subseteq> WS
        \<and> P1 c1 \<and> P2 c2 \<and> P3 c3 \<and> P4 c4 \<and> P5 c5)"
proof -
  have "[a1, a2, a3, a4, a5] \<noteq> []" "\<not> isWhiteSpace (hd [a1, a2, a3, a4, a5])"
    "\<not> isWhiteSpace (last [a1, a2, a3, a4, a5])" using nw by simp_all
  note n = normalized_iff [OF this, of raw]
  have s: "(\<forall>c \<in> set xs. isWhiteSpace c) \<longleftrightarrow> set xs \<subseteq> WS" for xs
    by (simp only: ws subset_eq)
  show ?thesis unfolding n s map5_iff [of lower_char, OF p] by blast
qed

lemma normalized_valid:
  "toLowerCase (trim raw) = ''valid'' \<longleftrightarrow>
     (\<exists>l c1 c2 c3 c4 c5 r. raw = l @ [c1, c2, c3, c4, c5] @ r
        \<and> set l \<subseteq> {CHR 0x09, CHR 0x0A, CHR 0x0B, CHR 0x0C, CHR 0x0D, CHR 0x20, CHR 0xA0}
        \<and> set r \<subseteq> {CHR 0x09, CHR 0x0A, CHR 0x0B, CHR 0x0C, CHR 0x0D, CHR 0x20, CHR 0xA0}
        \<and> (c1 = CHR ''v'' \<or> c1 = CHR ''V'') \<and> (c2 = CHR ''a'' \<or> c2 = CHR ''A'')
        \<and> (c3 = CHR ''l'' \<or> c3 = CHR ''L'') \<and> (c4 = CHR ''i'' \<or> c4 = CHR ''I'')
        \<and> (c5 = CHR ''d'' \<or> c5 = CHR ''D''))"
  by (rule normalized_five [OF _ _ isWhiteSpace_iff lower_char_valid])
     (simp_all add: isWhiteSpace_def)

text \<open>
  Claim C3. Whatever text the validation model returns, \<^verbatim>\<open>validateQuestion\<close> answers
  true exactly when that text, trimmed and lowercased, is \<open>valid\<close>. Spelled out
  without the functions of the model: the text is a run of white space (tab, line
  feed, vertical tab, form feed, carriage return, space, no-break space), then one
  of \<open>v\<close> \<open>V\<close>, one of \<open>a\<close> \<open>A\<close>, one of \<open>l\<close> \<open>L\<close>, one of \<open>i\<close> \<open>I\<close>, one of
  \<open>d\<close> \<open>D\<close>, then a run of white space. So \<open>VALID\<close> and \<open>" Valid \\n"\<close> are
  accepted, and every other output gives false. The statement ranges over all texts
  of code units U+0000 to U+00FF.
\<close>

theorem validateQuestion_fail_closed:
  assumes "validationChain env query = Inr raw"
  shows "fst (validateQuestion env query w) = Inr (toLowerCase (trim raw) = ''valid'')
       \<and> fst (validateQuestion env query w) =
           Inr (\<exists>l c1 c2 c3 c4 c5 r. raw = l @ [c1, c2, c3, c4, c5] @ r
                  \<and> set l \<subseteq> {CHR 0x09, CHR 0x0A, CHR 0x0B, CHR 0x0C, CHR 0x0D, CHR 0x20, CHR 0xA0}
                  \<and> set r \<subseteq> {CHR 0x09, CHR 0x0A, CHR 0x0B, CHR 0x0C, CHR 0x0D, CHR 0x20, CHR 0xA0}
                  \<and> (c1 = CHR ''v'' \<or> c1 = CHR ''V'') \<and> (c2 = CHR ''a'' \<or> c2 = CHR ''A'')
                  \<and> (c3 = CHR ''l'' \<or> c3 = CHR ''L'') \<and> (c4 = CHR ''i'' \<or> c4 = CHR ''I'')
                  \<and> (c5 = CHR ''d'' \<or> c5 = CHR ''D''))"
proof -
  have r: "fst (validateQuestion env query w) = Inr (toLowerCase (trim raw) = ''valid'')"
    using assms by (simp only: validateQuestion_result fst_conv)
  moreover have "fst (validateQuestion env query w) =
           Inr (\<exists>l c1 c2 c3 c4 c5 r. raw = l @ [c1, c2, c3, c4, c5] @ r
                  \<and> set l \<subseteq> {CHR 0x09, CHR 0x0A, CHR 0x0B, CHR 0x0C, CHR 0x0D, CHR 0x20, CHR 0xA0}
                  \<and> set r \<subseteq> {CHR 0x09, CHR 0x0A, CHR 0x0B, CHR 0x0C, CHR 0x0D, CHR 0x20, CHR 0xA0}
                  \<and> (c1 = CHR ''v'' \<or> c1 = CHR ''V'') \<and> (c2 = CHR ''a'' \<or> c2 = CHR ''A'')
                  \<and> (c3 = CHR ''l'' \<or> c3 = CHR ''L'') \<and> (c4 = CHR ''i'' \<or> c4 = CHR ''I'')
                  \<and> (c5 = CHR ''d'' \<or> c5 = CHR ''D''))"
    unfolding r by (simp only: normalized_valid)
  ultimately show ?thesis by (rule conjI)
qed

theorem validateQuestion_fail_closed_witness:
  "validationChain (demo_env\<lparr>validationChain := \<lambda>q. Inr ''VALID''\<rparr>) ''tx blocked'' = Inr ''VALID''
   \<and> fst (validateQuestion (demo_env\<lparr>validationChain := \<lambda>q. Inr ''VALID''\<rparr>)
             ''tx blocked'' empty_world) = Inr True
   \<and> fst (validateQuestion (demo_env\<lparr>validationChain := \<lambda>q. Inr ('' Valid '' @ [CHR 0x0A])\<rparr>)
             ''tx blocked'' empty_world) = Inr True
   \<and> fst (validateQuestion demo_env ''How do I reset my password?'' empty_world) = Inr True
   \<and> fst (validateQuestion (demo_env\<lparr>validationChain := \<lambda>q. Inr ''needs_more_context''\<rparr>)
             ''tx blocked'' empty_world) = Inr False
   \<and> fst (validateQuestion (demo_env\<lparr>validationChain := \<lambda>q. Inr ''valid.''\<rparr>)
             ''tx blocked'' empty_world) = Inr False"
proof -
  have n: "toLowerCase (trim ''VALID'') = ''valid''"
    "toLowerCase (trim ('' Valid '' @ [CHR 0x0A])) = ''valid''"
    "toLowerCase (trim ('' valid'' @ [CHR 0x0A])) = ''valid''"
    "toLowerCase (trim ''needs_more_context'') \<noteq> ''valid''"
    "toLowerCase (trim ''valid.'') \<noteq> ''valid''"
    by code_simp+
  show ?thesis
    using validateQuestion_fail_closed [of "demo_env\<lparr>validationChain := \<lambda>q. Inr ''VALID''\<rparr>"
            "''tx blocked''" "''VALID''" empty_world, THEN conjunct1]
          validateQuestion_fail_closed [of "demo_env\<lparr>validationChain := \<lambda>q. Inr ('' Valid '' @ [CHR 0x0A])\<rparr>"
            "''tx blocked''" "'' Valid '' @ [CHR 0x0A]" empty_world, THEN conjunct1]
          validateQuestion_fail_closed [of demo_env "''How do I reset my password?''"
            "'' valid'' @ [CHR 0x0A]" empty_world, THEN conjunct1]
          validateQuestion_fail_closed [of "demo_env\<lparr>validationChain := \<lambda>q. Inr ''needs_more_context''\<rparr>"
            "''tx blocked''" "''needs_more_context''" empty_world, THEN conjunct1]
          validateQuestion_fail_closed [of "demo_env\<lparr>validationChain := \<lambda>q. Inr ''valid.''\<rparr>"
            "''tx blocked''" "''valid.''" empty_world, THEN conjunct1]
    by (simp add: demo_env_def n [simplified])
qed



text \<open>
  Claim C7. \<^verbatim>\<open>cosineSimilarity\<close> throws on any two vectors of unequal length,
  and \<^verbatim>\<open>findRelevantChunks\<close> throws the same error as soon as one indexed embedding
  has another length than the query embedding: no score is computed.
\<close>

theorem dimension_mismatch_is_error:
  "(length vecA \<noteq> length vecB \<longrightarrow>
      cosineSimilarity vecA vecB = Inl (Error ''Vectors must have the same length''))
   \<and> (embedQuery env question = Inr q
        \<and> (\<exists>item \<in> set (vectorStore w). length (embedding item) \<noteq> length q) \<longrightarrow>
      fst (findRelevantChunks env question topK threshold w) =
        Inl (Error ''Vectors must have the same length''))"
  using findRelevantChunks_mismatch [of env question q w topK threshold]
  by (simp add: cosineSimilarity_def)

theorem dimension_mismatch_is_error_witness:
  "length [Finite 1] \<noteq> length [Finite 3, Finite 4]
   \<and> cosineSimilarity [Finite 1] [Finite 3, Finite 4] =
       Inl (Error ''Vectors must have the same length'')
   \<and> embedQuery demo_env ''Where is my order?'' = Inr [Finite 1]
   \<and> (\<exists>item \<in> set (vectorStore demo_world). length (embedding item) \<noteq> length [Finite 1 :: number])
   \<and> fst (findRelevantChunks demo_env ''Where is my order?'' 3 default_threshold demo_world) =
       Inl (Error ''Vectors must have the same length'')"
proof -
  have e: "embedQuery demo_env ''Where is my order?'' = Inr [Finite 1]"
    by (simp add: demo_env_def demo_embed_def)
  have m: "\<exists>item \<in> set (vectorStore demo_world). length (embedding item) \<noteq> length [Finite 1 :: number]"
    by (simp add: demo_world_def demo_store_def)
  have l: "length [Finite 1] \<noteq> length [Finite 3, Finite 4]" by simp
  from dimension_mismatch_is_error [of "[Finite 1]" "[Finite 3, Finite 4]" demo_env
      "''Where is my order?''" "[Finite 1]" demo_world 3 default_threshold]
  show ?thesis using e m l by blast
qed

lemma demo_scores': "score_all [Finite 3, Finite 4] (vectorStore demo_world) = Inr demo_scored"
  by (simp add: demo_world_def demo_store_def demo_scored_def cosineSimilarity_def Let_def
        fl_numeral fl_neg_numeral sqrt_rne_25 chunk.extend_def scored_chunk.fields_def)

lemma demo_sorted: "sort_by compareFn demo_scored = demo_scored"
  by (simp add: demo_scored_def sort_by_def compareFn_def num_sub_def num_neg_def)

lemma refund_scores:
  "score_all [Finite 4, Finite (- 3)] (vectorStore refund_world) = Inr [(demo_scored ! 0)\<lparr>score := Finite 0\<rparr>]"
  by (simp add: refund_world_def demo_store_def demo_scored_def cosineSimilarity_def Let_def
        fl_numeral fl_neg_numeral sqrt_rne_25 chunk.extend_def scored_chunk.fields_def)

text \<open>
  Claim C1, as stated, fails on the empty index: the result is empty although no score
  is below the threshold (there is no score at all). It fails as well when \<open>topK\<close>
  is 0: nothing is returned although the highest score, 1, is above the threshold.
\<close>

theorem gate_exactly_when_counterexample:
  "embedQuery demo_env ''What is your refund policy?'' = Inr [Finite 3, Finite 4]
   \<and> score_all [Finite 3, Finite 4] (vectorStore empty_world) = Inr []
   \<and> \<not> highest_score_below [] default_threshold
   \<and> fst (findRelevantChunks demo_env ''What is your refund policy?'' 3 default_threshold
            empty_world) = Inr []
   \<and> score_all [Finite 3, Finite 4] (vectorStore demo_world) = Inr demo_scored
   \<and> \<not> highest_score_below demo_scored default_threshold
   \<and> fst (findRelevantChunks demo_env ''What is your refund policy?'' 0 default_threshold
            demo_world) = Inr []"
proof -
  have e: "embedQuery demo_env ''What is your refund policy?'' = Inr [Finite 3, Finite 4]"
    by (simp add: demo_env_def demo_embed_def)
  have s0: "score_all [Finite 3, Finite 4] (vectorStore empty_world) = Inr []"
    by (simp add: empty_world_def)
  have n0: "\<not> highest_score_below [] default_threshold"
    by (simp add: highest_score_below_def)
  have r0: "fst (findRelevantChunks demo_env ''What is your refund policy?'' 3 default_threshold
            empty_world) = Inr []"
    by (simp add: findRelevantChunks_scored [OF e s0] sort_by_def slice0_def)
  have n1: "\<not> highest_score_below demo_scored default_threshold"
    by (simp add: highest_score_below_def demo_scored_def default_threshold_def)
  have r1: "fst (findRelevantChunks demo_env ''What is your refund policy?'' 0 default_threshold
            demo_world) = Inr []"
    by (simp add: findRelevantChunks_scored [OF e demo_scores'] slice0_def)
  show ?thesis using e s0 n0 r0 demo_scores' n1 r1 by simp
qed

text \<open>
  Claim C1, amended. When the index is not empty, \<open>topK\<close> is at least 1, every
  indexed embedding has the query's dimension and no score is NaN, the result of
  \<^verbatim>\<open>findRelevantChunks\<close> is empty exactly when the highest score is strictly below
  the threshold; otherwise it is the first \<open>min(topK, indexSize)\<close> chunks in
  descending order of score, whatever the scores of the ones after the first.
\<close>

theorem findRelevantChunks_confidence_gate:
  assumes "embedQuery env question = Inr q"
    and "score_all q (vectorStore w) = Inr scored"
    and "vectorStore w \<noteq> []" and "1 \<le> topK"
    and "\<forall>c \<in> set scored. score c \<noteq> NaN"
  shows "fst (findRelevantChunks env question topK threshold w) =
           Inr (if highest_score_below scored threshold then []
                else take (min (nat topK) (length (vectorStore w))) (sort_by compareFn scored))
       \<and> (fst (findRelevantChunks env question topK threshold w) = Inr [] \<longleftrightarrow>
            highest_score_below scored threshold)
       \<and> sorted_wrt ranks_above (sort_by compareFn scored)
       \<and> map chunk.truncate scored = vectorStore w
       \<and> set (sort_by compareFn scored) = set scored"
proof -
  have len: "length scored = length (vectorStore w)" using assms(2) by (rule score_all_length)
  have cmp: "\<forall>c \<in> set scored. comparable c"
    using score_all_grid [OF assms(2)] assms(5) by (simp add: comparable_def)
  have "sort_by compareFn scored \<noteq> []" using len assms(3) by auto
  then obtain best rest where ranked: "sort_by compareFn scored = best # rest"
    by (cases "sort_by compareFn scored") auto
  have gate: "num_less (score best) threshold \<longleftrightarrow> highest_score_below scored threshold"
    using cmp ranked by (rule highest_below_iff)
  have "take (min k (length xs)) xs = take k xs" for k and xs :: "scored_chunk list"
    by (cases "k \<le> length xs") (simp_all add: min_def)
  from this [of "nat topK" "sort_by compareFn scored"]
  have "take (min (nat topK) (length (vectorStore w))) (sort_by compareFn scored) =
          take (nat topK) (sort_by compareFn scored)"
    using len by simp
  also have "\<dots> = best # take (nat topK - 1) rest"
    using assms(4) ranked by (cases "nat topK") simp_all
  finally have tk: "take (min (nat topK) (length (vectorStore w))) (sort_by compareFn scored) =
             best # take (nat topK - 1) rest" .
  have res: "fst (findRelevantChunks env question topK threshold w) =
           Inr (if highest_score_below scored threshold then []
                else take (min (nat topK) (length (vectorStore w))) (sort_by compareFn scored))"
  proof -
    have "fst (findRelevantChunks env question topK threshold w) =
            Inr (if num_less (score best) threshold then [] else best # take (nat topK - 1) rest)"
      using assms(4) by (simp add: findRelevantChunks_scored [OF assms(1,2)] ranked slice0_pos)
    then show ?thesis by (simp only: gate tk)
  qed
  have "(fst (findRelevantChunks env question topK threshold w) = Inr []) \<longleftrightarrow>
            highest_score_below scored threshold"
    unfolding res by (simp add: tk)
  moreover have "sorted_wrt ranks_above (sort_by compareFn scored)"
    using cmp by (rule sorted_sort_by)
  moreover have "map chunk.truncate scored = vectorStore w"
    using score_all_Inr [OF assms(2)] by simp
  ultimately show ?thesis using res by simp
qed

theorem findRelevantChunks_confidence_gate_witness:
  "embedQuery demo_env ''What is your refund policy?'' = Inr [Finite 3, Finite 4]
   \<and> score_all [Finite 3, Finite 4] (vectorStore demo_world) = Inr demo_scored
   \<and> vectorStore demo_world \<noteq> [] \<and> (1::int) \<le> 3
   \<and> score (demo_scored ! 0) \<noteq> NaN \<and> score (demo_scored ! 1) \<noteq> NaN
   \<and> fst (findRelevantChunks demo_env ''What is your refund policy?'' 3 default_threshold
            demo_world) = Inr demo_scored
   \<and> num_less (score (demo_scored ! 1)) default_threshold
   \<and> embedQuery demo_env ''How long does shipping take?'' = Inr [Finite 4, Finite (- 3)]
   \<and> fst (findRelevantChunks demo_env ''How long does shipping take?'' 3 default_threshold
            refund_world) = Inr []"
proof -
  have e: "embedQuery demo_env ''What is your refund policy?'' = Inr [Finite 3, Finite 4]"
    by (simp add: demo_env_def demo_embed_def)
  have ne: "vectorStore demo_world \<noteq> []" by (simp add: demo_world_def demo_store_def)
  have nn: "\<forall>c \<in> set demo_scored. score c \<noteq> NaN" by (simp add: demo_scored_def)
  have below: "num_less (score (demo_scored ! 1)) default_threshold"
    by (simp add: demo_scored_def default_threshold_def)
  have open_gate: "\<not> highest_score_below demo_scored default_threshold"
    by (simp add: highest_score_below_def demo_scored_def default_threshold_def)
  have n: "length (vectorStore demo_world) = 2" by (simp add: demo_world_def demo_store_def)
  from findRelevantChunks_confidence_gate [OF e demo_scores' ne _ nn, of 3 default_threshold]
  have r1: "fst (findRelevantChunks demo_env ''What is your refund policy?'' 3 default_threshold
            demo_world) = Inr demo_scored"
    using open_gate by (simp add: demo_sorted n) (simp add: demo_scored_def)
  have e2: "embedQuery demo_env ''How long does shipping take?'' = Inr [Finite 4, Finite (- 3)]"
    by (simp add: demo_env_def demo_embed_def)
  have ne2: "vectorStore refund_world \<noteq> []" by (simp add: refund_world_def)
  have nn2: "\<forall>c \<in> set [(demo_scored ! 0)\<lparr>score := Finite 0\<rparr>]. score c \<noteq> NaN" by simp
  have closed_gate: "highest_score_below [(demo_scored ! 0)\<lparr>score := Finite 0\<rparr>] default_threshold"
    by (simp add: highest_score_below_def default_threshold_def)
  from findRelevantChunks_confidence_gate [OF e2 refund_scores ne2 _ nn2, of 3 default_threshold]
  have r2: "fst (findRelevantChunks demo_env ''How long does shipping take?'' 3 default_threshold
            refund_world) = Inr []"
    using closed_gate by simp
  have nn': "score (demo_scored ! 0) \<noteq> NaN \<and> score (demo_scored ! 1) \<noteq> NaN"
    by (simp add: demo_scored_def)
  show ?thesis using e demo_scores' ne nn' r1 below e2 r2 by simp
qed

lemma score_all_zero_query:
  assumes "\<forall>x \<in> set q. x = Finite 0"
    and "\<forall>item \<in> set store. length (embedding item) = length q"
  shows "\<exists>scored. score_all q store = Inr scored \<and> (\<forall>c \<in> set scored. score c = NaN)"
proof -
  from score_all_total [OF assms(2)] obtain scored where s: "score_all q store = Inr scored" by blast
  have "score c = NaN" if "c \<in> set scored" for c
  proof -
    from score_all_Inr [OF s] that
    have c: "cosineSimilarity q (embedding c) = Inr (score c)"
      and "chunk.truncate c \<in> set store" by force+
    then have "length (embedding (chunk.truncate c)) = length q" using assms(2) by blast
    then have "length q = length (embedding c)" by (simp add: chunk.truncate_def)
    with assms(1) have "cosineSimilarity q (embedding c) = Inr NaN"
      by (intro cosineSimilarity_zero) simp_all
    with c show ?thesis by simp
  qed
  with s show ?thesis by blast
qed

text \<open>
  Claim C10. A zero vector on either side makes \<^verbatim>\<open>cosineSimilarity\<close> return NaN
  (for vectors of one length; it does not throw). In \<^verbatim>\<open>findRelevantChunks\<close> a top
  result whose score is NaN is not below the threshold, so the top results are returned
  as they are; an empty index gives no top result and nothing to gate. In particular a
  query whose embedding is the zero vector scores NaN against every chunk, and the first
  \<open>topK\<close> chunks of the index come back, whatever the threshold.
\<close>

theorem zero_vector_passes_gate:
  "(length a = length b \<and> ((\<forall>x \<in> set a. x = Finite 0) \<or> (\<forall>x \<in> set b. x = Finite 0)) \<longrightarrow>
      cosineSimilarity a b = Inr NaN)
   \<and> (embedQuery env question = Inr q \<and> score_all q (vectorStore w) = Inr scored
        \<and> slice0 topK (sort_by compareFn scored) = r # rs \<and> score r = NaN \<longrightarrow>
      fst (findRelevantChunks env question topK threshold w) = Inr (r # rs))
   \<and> (embedQuery env question = Inr q \<and> vectorStore w = [] \<longrightarrow>
      fst (findRelevantChunks env question topK threshold w) = Inr [])
   \<and> (embedQuery env question = Inr q \<and> (\<forall>x \<in> set q. x = Finite 0)
        \<and> (\<forall>item \<in> set (vectorStore w). length (embedding item) = length q)
        \<and> vectorStore w \<noteq> [] \<and> 1 \<le> topK \<longrightarrow>
      (\<exists>scored. fst (findRelevantChunks env question topK threshold w) = Inr (take (nat topK) scored)
         \<and> take (nat topK) scored \<noteq> []
         \<and> map chunk.truncate scored = vectorStore w
         \<and> (\<forall>c \<in> set scored. score c = NaN)))"
proof -
  have A: "cosineSimilarity a b = Inr NaN"
    if "length a = length b \<and> ((\<forall>x \<in> set a. x = Finite 0) \<or> (\<forall>x \<in> set b. x = Finite 0))"
    using that cosineSimilarity_zero [of a b] by blast
  have B: "fst (findRelevantChunks env question topK threshold w) = Inr (r # rs)"
    if "embedQuery env question = Inr q \<and> score_all q (vectorStore w) = Inr scored
        \<and> slice0 topK (sort_by compareFn scored) = r # rs \<and> score r = NaN"
    using that by (simp add: findRelevantChunks_scored [of env question q w scored])
  have C: "fst (findRelevantChunks env question topK threshold w) = Inr []"
    if "embedQuery env question = Inr q \<and> vectorStore w = []"
    using that by (simp add: findRelevantChunks_def sort_by_def slice0_def)
  have D: "\<exists>scored. fst (findRelevantChunks env question topK threshold w) = Inr (take (nat topK) scored)
         \<and> take (nat topK) scored \<noteq> []
         \<and> map chunk.truncate scored = vectorStore w
         \<and> (\<forall>c \<in> set scored. score c = NaN)"
    if h: "embedQuery env question = Inr q \<and> (\<forall>x \<in> set q. x = Finite 0)
        \<and> (\<forall>item \<in> set (vectorStore w). length (embedding item) = length q)
        \<and> vectorStore w \<noteq> [] \<and> 1 \<le> topK"
  proof -
    from h score_all_zero_query [of q "vectorStore w"]
    obtain scored where s: "score_all q (vectorStore w) = Inr scored"
      and nan: "\<forall>c \<in> set scored. score c = NaN" by blast
    have tr: "map chunk.truncate scored = vectorStore w" using score_all_Inr [OF s] by simp
    with h have "scored \<noteq> []" by auto
    then obtain c cs where sc: "scored = c # cs" by (cases scored) auto
    have id: "sort_by compareFn scored = scored" using nan by (rule sort_by_all_NaN)
    have sl: "slice0 topK (sort_by compareFn scored) = c # take (nat topK - 1) cs"
      using h by (simp add: id) (simp add: sc slice0_pos)
    have "score c = NaN" using nan sc by simp
    then have "fst (findRelevantChunks env question topK threshold w) = Inr (c # take (nat topK - 1) cs)"
      using h by (simp add: findRelevantChunks_scored [OF _ s] sl)
    moreover have "take (nat topK) scored = c # take (nat topK - 1) cs"
      using h sc by (cases "nat topK") simp_all
    ultimately have "fst (findRelevantChunks env question topK threshold w) = Inr (take (nat topK) scored)"
      by simp
    moreover have "take (nat topK) scored \<noteq> []" using h sc by (cases "nat topK") simp_all
    ultimately show ?thesis using tr nan by blast
  qed
  from A B C D show ?thesis by blast
qed
theorem zero_vector_passes_gate_witness:
  "length [Finite 0, Finite 0 :: number] = length [Finite 3, Finite 4 :: number]
   \<and> cosineSimilarity [Finite 0, Finite 0] [Finite 3, Finite 4] = Inr NaN
   \<and> embedQuery demo_env ''Do you sell gift cards?'' = Inr [Finite 0, Finite 0]
   \<and> score_all [Finite 0, Finite 0] (vectorStore demo_world) =
        Inr (map (\<lambda>c. c\<lparr>score := NaN\<rparr>) demo_scored)
   \<and> fst (findRelevantChunks demo_env ''Do you sell gift cards?'' 3 default_threshold demo_world) =
        Inr (map (\<lambda>c. c\<lparr>score := NaN\<rparr>) demo_scored)
   \<and> vectorStore empty_world = []
   \<and> fst (findRelevantChunks demo_env ''Do you sell gift cards?'' 3 default_threshold empty_world) =
        Inr []"
proof -
  let ?q = "[Finite 0, Finite 0 :: number]"
  let ?nan = "map (\<lambda>c. c\<lparr>score := NaN\<rparr>) demo_scored"
  have e: "embedQuery demo_env ''Do you sell gift cards?'' = Inr ?q"
    by (simp add: demo_env_def demo_embed_def)
  have z: "\<forall>x \<in> set ?q. x = Finite 0" by simp
  have c: "cosineSimilarity ?q [Finite 3, Finite 4] = Inr NaN"
    using zero_vector_passes_gate [of ?q "[Finite 3, Finite 4]"] z by simp
  have c2: "cosineSimilarity ?q [Finite 4, Finite (- 3)] = Inr NaN"
    using zero_vector_passes_gate [of ?q "[Finite 4, Finite (- 3)]"] z by simp
  have s: "score_all ?q (vectorStore demo_world) = Inr ?nan"
    by (simp add: demo_world_def demo_store_def demo_scored_def c c2
          chunk.extend_def scored_chunk.fields_def)
  have sl: "slice0 3 (sort_by compareFn ?nan) = hd ?nan # tl ?nan"
    by (simp add: demo_scored_def sort_by_def compareFn_def slice0_def)
  have "score (hd ?nan) = NaN" by (simp add: demo_scored_def)
  with zero_vector_passes_gate [of _ _ demo_env "''Do you sell gift cards?''" ?q demo_world ?nan
      3 "hd ?nan" "tl ?nan" default_threshold] e s sl
  have "fst (findRelevantChunks demo_env ''Do you sell gift cards?'' 3 default_threshold demo_world) =
        Inr (hd ?nan # tl ?nan)" by blast
  then have r: "fst (findRelevantChunks demo_env ''Do you sell gift cards?'' 3 default_threshold demo_world) =
        Inr ?nan" by (simp add: demo_scored_def)
  have ew: "vectorStore empty_world = []" by (simp add: empty_world_def)
  with zero_vector_passes_gate [of _ _ demo_env "''Do you sell gift cards?''" ?q empty_world] e
  have r0: "fst (findRelevantChunks demo_env ''Do you sell gift cards?'' 3 default_threshold empty_world) =
        Inr []" by blast
  show ?thesis using c e s r ew r0 by simp
qed

lemma sqrt_rne_2: "sqrt_rne 2 = Finite (6369051672525773 / 4503599627370496)"
  using sqrt_rne_up [of 1 2 "- 52" "2 ^ 105" 6369051672525772] by simp

lemma fl_sqrt2_squared:
  "fl (6369051672525773 / 4503599627370496 * (6369051672525773 / 4503599627370496)) =
     Finite (4503599627370497 / 2251799813685248)"
  using fl_eqI [of 1 "6369051672525773 / 4503599627370496 * (6369051672525773 / 4503599627370496)"
                  "- 51" 4503599627370497]
  by simp

lemma fl_two_over:
  "fl (2 / (4503599627370497 / 2251799813685248)) = Finite (4503599627370495 / 4503599627370496)"
  using fl_eqI [of "- 1" "2 / (4503599627370497 / 2251799813685248)" "- 53" 9007199254740990]
  by simp

lemma cosineSimilarity_ones:
  "cosineSimilarity [Finite 1, Finite 1] [Finite 1, Finite 1] =
     Inr (Finite (4503599627370495 / 4503599627370496))"
  using fl_two_over fl_sqrt2_squared
  by (simp add: cosineSimilarity_def Let_def fl_numeral sqrt_rne_2)

lemma pow2_add: "(2::rat) powi a * 2 powi b = 2 powi (a + b)"
  by (simp add: power_int_add)

lemma ilog2_ge:
  assumes "2 powi a \<le> q"
  shows "a \<le> ilog2 q"
proof -
  have q: "0 < q" using assms pow2_pos [of a] by linarith
  from ilog2_bounds [OF q] have "q < 2 powi (ilog2 q + 1)" by simp
  with assms have "(2::rat) powi a < 2 powi (ilog2 q + 1)" by linarith
  then have "a < ilog2 q + 1" by (metis pow2_mono not_le not_less)
  then show ?thesis by simp
qed

lemma fl_rel_error:
  assumes "2 powi (- 1022) \<le> \<bar>q\<bar>" and "\<bar>q\<bar> * (1 + 2 powi (- 53)) < 2 powi 1024"
  shows "\<exists>r. fl q = Finite r \<and> \<bar>r - q\<bar> \<le> \<bar>q\<bar> * 2 powi (- 53)"
proof -
  have qpos: "0 < \<bar>q\<bar>" using assms(1) pow2_pos [of "- 1022"] by linarith
  then have q0: "q \<noteq> 0" by simp
  define k where "k = ilog2 \<bar>q\<bar>"
  from ilog2_bounds [OF qpos] have kb: "2 powi k \<le> \<bar>q\<bar>" by (simp add: k_def)
  have k: "- 1022 \<le> k" unfolding k_def using assms(1) by (rule ilog2_ge)
  define e where "e = k - 52"
  have e: "max (ilog2 \<bar>q\<bar> - 52) (- 1074) = e" using k by (simp add: e_def k_def)
  define m where "m = rne (q / 2 powi e)"
  define r :: rat where "r = of_int m * 2 powi e"
  have pe: "(0::rat) < 2 powi e" by simp
  have "r - q = (of_int m - q / 2 powi e) * 2 powi e"
    using pe by (simp add: r_def algebra_simps)
  then have "\<bar>r - q\<bar> = \<bar>of_int m - q / 2 powi e\<bar> * 2 powi e"
    using pe by (simp add: abs_mult)
  also have "\<dots> \<le> 1 / 2 * 2 powi e"
    using rne_error [of "q / 2 powi e"] pe unfolding m_def by (intro mult_right_mono) simp_all
  also have "1 / 2 * (2::rat) powi e = 2 powi k * 2 powi (- 53)"
  proof -
    have "(2::rat) powi k * 2 powi (- 53) = 2 powi (k + (- 53))" by (rule pow2_add)
    also have "k + (- 53) = e + (- 1)" by (simp add: e_def)
    also have "(2::rat) powi (e + (- 1)) = 2 powi e * 2 powi (- 1)" by (rule pow2_add [symmetric])
    also have "(2::rat) powi (- 1) = 1 / 2" by simp
    finally show ?thesis by simp
  qed
  also have "\<dots> \<le> \<bar>q\<bar> * 2 powi (- 53)"
    using kb by (intro mult_right_mono) simp_all
  finally have err: "\<bar>r - q\<bar> \<le> \<bar>q\<bar> * 2 powi (- 53)" .
  have "\<bar>r\<bar> \<le> \<bar>q\<bar> + \<bar>r - q\<bar>" by simp
  also have "\<dots> \<le> \<bar>q\<bar> * (1 + 2 powi (- 53))" using err by (simp add: algebra_simps)
  finally have "\<bar>r\<bar> < 2 powi 1024" using assms(2) by simp
  then have "fl q = Finite r"
    using q0 by (simp add: fl_def Let_def e r_def m_def)
  with err show ?thesis by blast
qed
lemma sqrt_rne_bounds:
  assumes "2 powi (- 1022) \<le> d"
  shows "\<exists>r. sqrt_rne d = Finite r \<and> 0 < r
           \<and> (r * (1 - 2 powi (- 53))) * (r * (1 - 2 powi (- 53))) \<le> d
           \<and> d \<le> (r * (1 + 2 powi (- 53))) * (r * (1 + 2 powi (- 53)))"
proof -
  define u :: rat where "u = 2 powi (- 53)"
  have u: "0 < u" "u < 1" and u52: "2 ^ 52 * u = 1 / 2" by (simp_all add: u_def)
  have dpos: "0 < d" using assms pow2_pos [of "- 1022"] by linarith
  then have d0: "d \<noteq> 0" by simp
  define k where "k = ilog2 d"
  from ilog2_bounds [OF dpos] have kb: "2 powi k \<le> d" by (simp add: k_def)
  have k: "- 1022 \<le> k" unfolding k_def using assms by (rule ilog2_ge)
  define h where "h = k div 2"
  have h: "2 * h \<le> k" "- 511 \<le> h" using k by (simp_all add: h_def)
  define e where "e = h - 52"
  have e: "max (ilog2 d div 2 - 52) (- 1074) = e" using h(2) by (simp add: e_def h_def k_def)
  define g :: rat where "g = 2 powi e"
  have g: "0 < g" by (simp add: g_def)
  have gg: "2 powi (2 * e) = g * g" by (simp add: g_def pow2_add)
  define t where "t = d / (g * g)"
  have d: "d = t * (g * g)" using g by (simp add: t_def)
  have t104: "2 ^ 104 \<le> t"
  proof -
    have "(2::rat) powi (2 * e) * 2 powi 104 = 2 powi (2 * e + 104)" by (rule pow2_add)
    also have "\<dots> \<le> 2 powi k" by (rule pow2_mono) (use h(1) in \<open>simp add: e_def\<close>)
    also have "\<dots> \<le> d" by (rule kb)
    finally have "g * g * 2 powi 104 \<le> d" by (simp only: gg)
    then have "2 powi 104 \<le> d / (g * g)" using g by (simp add: pos_le_divide_eq mult.commute)
    then show ?thesis by (simp add: t_def)
  qed
  then have t0: "0 \<le> \<lfloor>t\<rfloor>" by simp
  define m where "m = isqrt \<lfloor>t\<rfloor>"
  from isqrt_spec [OF t0]
  have m0: "0 \<le> m" and mlo: "m * m \<le> \<lfloor>t\<rfloor>" and mhi: "\<lfloor>t\<rfloor> < (m + 1) * (m + 1)"
    by (simp_all add: m_def)
  have lo: "of_int (m * m) \<le> t" using mlo by (simp only: le_floor_iff)
  have hi: "t < of_int ((m + 1) * (m + 1))" using mhi by (simp only: floor_less_iff)
  have m52: "2 ^ 52 \<le> m"
  proof (rule ccontr)
    assume "\<not> 2 ^ 52 \<le> m"
    then have "m + 1 \<le> 2 ^ 52" by simp
    then have "(m + 1) * (m + 1) \<le> 2 ^ 52 * 2 ^ 52" using m0 by (intro mult_mono) simp_all
    then have "(of_int ((m + 1) * (m + 1)) :: rat) \<le> of_int (2 ^ 52 * 2 ^ 52)"
      by (simp only: of_int_le_iff)
    with hi t104 show False by simp
  qed
  define c :: rat where "c = (of_int m + 1 / 2) * (of_int m + 1 / 2)"
  define M where "M = (if t < c then m else if c < t then m + 1 else if even m then m else m + 1)"
  have s: "sqrt_rne d = Finite (of_int M * g)"
    using d0 unfolding sqrt_rne_def Let_def e gg t_def [symmetric] m_def [symmetric]
        c_def [symmetric] M_def [symmetric] g_def [symmetric] by simp
  have m1: "(1::rat) \<le> of_int m"
  proof -
    have "(1::int) \<le> m" using m52 by simp
    then have "(of_int 1 :: rat) \<le> of_int m" by (simp only: of_int_le_iff)
    then show ?thesis by simp
  qed
  have Mm: "m \<le> M" by (simp add: M_def)
  have bounds: "(of_int M - 1 / 2) * (of_int M - 1 / 2) \<le> t
              \<and> t \<le> (of_int M + 1 / 2) * (of_int M + 1 / 2)"
  proof -
    have a: "(of_int m - 1 / 2) * (of_int m - 1 / 2) \<le> (of_int (m * m) :: rat)"
      using m1 by (simp add: algebra_simps)
    have b: "(of_int ((m + 1) * (m + 1)) :: rat) \<le> (of_int (m + 1) + 1 / 2) * (of_int (m + 1) + 1 / 2)"
      using m1 by (simp add: algebra_simps)
    have c': "(of_int (m + 1) - 1 / 2) * (of_int (m + 1) - 1 / 2) = c"
      by (simp add: c_def algebra_simps)
    consider "M = m" "t \<le> c" | "M = m + 1" "c \<le> t"
      by (cases "t < c"; cases "c < t"; cases "even m") (auto simp: M_def)
    then show ?thesis
    proof cases
      case 1
      then show ?thesis using a lo by (simp add: c_def)
    next
      case 2
      then show ?thesis using b c' hi by simp
    qed
  qed
  have M52: "(2::rat) ^ 52 \<le> of_int M"
  proof -
    have "(2::int) ^ 52 \<le> M" using m52 Mm by simp
    then have "(of_int (2 ^ 52) :: rat) \<le> of_int M" by (simp only: of_int_le_iff)
    then show ?thesis by simp
  qed
  have Mu: "1 / 2 \<le> of_int M * u"
  proof -
    have "2 ^ 52 * u \<le> of_int M * u" using M52 u(1) by (intro mult_right_mono) simp_all
    then show ?thesis by (simp only: u52)
  qed
  define r :: rat where "r = of_int M * g"
  have z52: "(0::rat) < 2 ^ 52" by simp
  have Mpos: "(0::rat) < of_int M" using z52 M52 by (rule order.strict_trans2)
  have rpos: "0 < r" using Mpos g by (simp add: r_def)
  have up: "d \<le> (r * (1 + u)) * (r * (1 + u))"
  proof -
    have "0 \<le> of_int M + (1 / 2 :: rat)" using Mpos by simp
    moreover have "of_int M + 1 / 2 \<le> of_int M * (1 + u)" using Mu by (simp add: algebra_simps)
    ultimately have "(of_int M + 1 / 2) * (of_int M + 1 / 2) \<le> (of_int M * (1 + u)) * (of_int M * (1 + u))"
      by (intro mult_mono) simp_all
    with bounds have "t \<le> (of_int M * (1 + u)) * (of_int M * (1 + u))" by linarith
    then have "t * (g * g) \<le> (of_int M * (1 + u)) * (of_int M * (1 + u)) * (g * g)"
      using g by (intro mult_right_mono) simp_all
    then show ?thesis by (simp add: d r_def algebra_simps)
  qed
  have down: "(r * (1 - u)) * (r * (1 - u)) \<le> d"
  proof -
    have "0 \<le> of_int M * (1 - u)" using Mpos u(2) by simp
    moreover have "of_int M * (1 - u) \<le> of_int M - 1 / 2" using Mu by (simp add: algebra_simps)
    ultimately have "(of_int M * (1 - u)) * (of_int M * (1 - u)) \<le> (of_int M - 1 / 2) * (of_int M - 1 / 2)"
      by (intro mult_mono) simp_all
    with bounds have "(of_int M * (1 - u)) * (of_int M * (1 - u)) \<le> t" by linarith
    then have "(of_int M * (1 - u)) * (of_int M * (1 - u)) * (g * g) \<le> t * (g * g)"
      using g by (intro mult_right_mono) simp_all
    then show ?thesis by (simp add: d r_def algebra_simps)
  qed
  show ?thesis using s rpos up down unfolding r_def [symmetric] u_def by blast
qed
lemma self_similarity_bound:
  assumes "foldl (\<lambda>sum x. num_add sum (num_mul x x)) (Finite 0) a = Finite d"
    and "2 powi (- 1021) \<le> d" and "d < 2 powi 1023"
  shows "\<exists>x. cosineSimilarity a a = Inr (Finite x) \<and> \<bar>x - 1\<bar> \<le> 2 powi (- 50)"
proof -
  define u :: rat where "u = 2 powi (- 53)"
  have u: "0 < u" "u < 1" by (simp_all add: u_def)
  have n1: "(1 + u) * (1 + u) \<le> 2" by (simp add: u_def)
  have n2: "1 + u \<le> 2 * ((1 - u) * (1 - u))" by (simp add: u_def)
  have n3: "(1 + u) * (1 + u) * (1 + u) \<le> (1 + 8 * u) * (1 - u)" by (simp add: u_def)
  have n4: "(1 - 8 * u) * (1 + u) \<le> (1 - u) * (1 - u) * (1 - u)" by (simp add: u_def)
  have n5: "8 * u = 2 powi (- 50)" by (simp add: u_def)
  have p1022: "(2::rat) powi (- 1021) = 2 * 2 powi (- 1022)"
    using pow2_Suc [of "- 1022"] by simp
  have p1024: "(2::rat) powi 1024 = 2 * 2 powi 1023"
    using pow2_Suc [of 1023] by simp
  have dpos: "0 < d" using assms(2) pow2_pos [of "- 1021"] by linarith
  have "(2::rat) powi (- 1022) \<le> 2 powi (- 1021)" by (rule pow2_mono) simp
  with assms(2) have "2 powi (- 1022) \<le> d" by linarith
  from sqrt_rne_bounds [OF this] obtain r where r: "sqrt_rne d = Finite r" and rpos: "0 < r"
    and rlo: "(r * (1 - u)) * (r * (1 - u)) \<le> d" and rhi: "d \<le> (r * (1 + u)) * (r * (1 + u))"
    unfolding u_def by blast
  define q1 where "q1 = r * r"
  have q1pos: "0 < q1" using rpos by (simp add: q1_def)
  have rlo': "q1 * ((1 - u) * (1 - u)) \<le> d" using rlo by (simp add: q1_def algebra_simps)
  have rhi': "d \<le> q1 * ((1 + u) * (1 + u))" using rhi by (simp add: q1_def algebra_simps)
  have a1: "2 powi (- 1022) \<le> \<bar>q1\<bar>"
  proof -
    have "q1 * ((1 + u) * (1 + u)) \<le> q1 * 2" using n1 q1pos by (intro mult_left_mono) simp_all
    with rhi' assms(2) have "2 * 2 powi (- 1022) \<le> q1 * 2" unfolding p1022 by linarith
    then show ?thesis using q1pos by simp
  qed
  have a2: "\<bar>q1\<bar> * (1 + 2 powi (- 53)) < 2 powi 1024"
  proof -
    have "q1 * (1 + u) \<le> q1 * (2 * ((1 - u) * (1 - u)))"
      using n2 q1pos by (intro mult_left_mono) simp_all
    also have "\<dots> = 2 * (q1 * ((1 - u) * (1 - u)))" by simp
    also have "\<dots> \<le> 2 * d" using rlo' by simp
    also have "\<dots> < 2 * 2 powi 1023" using assms(3) by simp
    finally show ?thesis using q1pos unfolding p1024 u_def by simp
  qed
  from fl_rel_error [OF a1 a2] obtain p where p: "fl q1 = Finite p"
    and perr: "\<bar>p - q1\<bar> \<le> q1 * u" using q1pos unfolding u_def by auto
  have plo: "q1 * (1 - u) \<le> p" and phi: "p \<le> q1 * (1 + u)"
    using perr by (simp_all add: abs_le_iff algebra_simps)
  have ppos: "0 < p"
  proof -
    have "0 < q1 * (1 - u)" using q1pos u(2) by simp
    with plo show ?thesis by linarith
  qed
  define q2 where "q2 = d / p"
  have q2pos: "0 < q2" using dpos ppos by (simp add: q2_def)
  have dq: "d = q2 * p" using ppos by (simp add: q2_def)
  have qlo: "(1 - u) * (1 - u) \<le> q2 * (1 + u)"
  proof -
    have "p * ((1 - u) * (1 - u)) \<le> q1 * (1 + u) * ((1 - u) * (1 - u))"
      using phi by (intro mult_right_mono) simp_all
    also have "\<dots> = q1 * ((1 - u) * (1 - u)) * (1 + u)" by simp
    also have "\<dots> \<le> d * (1 + u)" using rlo' u(1) by (intro mult_right_mono) simp_all
    also have "\<dots> = p * (q2 * (1 + u))" by (simp add: dq)
    finally show ?thesis using ppos by simp
  qed
  have qhi: "q2 * (1 - u) \<le> (1 + u) * (1 + u)"
  proof -
    have "p * (q2 * (1 - u)) = d * (1 - u)" by (simp add: dq)
    also have "\<dots> \<le> q1 * ((1 + u) * (1 + u)) * (1 - u)"
      using rhi' u(2) by (intro mult_right_mono) simp_all
    also have "\<dots> = q1 * (1 - u) * ((1 + u) * (1 + u))" by simp
    also have "\<dots> \<le> p * ((1 + u) * (1 + u))" using plo by (intro mult_right_mono) simp_all
    finally show ?thesis using ppos by simp
  qed
  have q2half: "1 / 2 \<le> q2"
  proof -
    have "(1 + u) \<le> 2 * (q2 * (1 + u))" using n2 qlo by linarith
    then have "1 * (1 + u) \<le> (2 * q2) * (1 + u)" by (simp add: algebra_simps)
    moreover have "0 < 1 + u" using u(1) by simp
    ultimately have "1 \<le> 2 * q2" by (simp only: mult_le_cancel_right_pos)
    then show ?thesis by simp
  qed
  have q2two: "q2 \<le> 4"
  proof -
    have "q2 * (1 - u) \<le> 2" using qhi n1 by linarith
    moreover have "q2 * (1 / 2) \<le> q2 * (1 - u)"
      using q2pos by (intro mult_left_mono) (simp_all add: u_def)
    ultimately show ?thesis by simp
  qed
  have b1: "2 powi (- 1022) \<le> \<bar>q2\<bar>"
  proof -
    have "(2::rat) powi (- 1022) \<le> 2 powi (- 1)" by (rule pow2_mono) simp
    then show ?thesis using q2half q2pos by simp
  qed
  have b2: "\<bar>q2\<bar> * (1 + 2 powi (- 53)) < 2 powi 1024"
  proof -
    have "q2 * (1 + u) \<le> 4 * 2" using q2two q2pos u by (intro mult_mono) simp_all
    moreover have "(2::rat) powi 3 \<le> 2 powi 1023" by (rule pow2_mono) simp
    ultimately show ?thesis using q2pos unfolding p1024 u_def by simp
  qed
  from fl_rel_error [OF b1 b2] obtain x where x: "fl q2 = Finite x"
    and xerr: "\<bar>x - q2\<bar> \<le> q2 * u" using q2pos unfolding u_def by auto
  have xlo: "q2 * (1 - u) \<le> x" and xhi: "x \<le> q2 * (1 + u)"
    using xerr by (simp_all add: abs_le_iff algebra_simps)
  have up: "x \<le> 1 + 8 * u"
  proof -
    have "x * (1 - u) \<le> q2 * (1 + u) * (1 - u)" using xhi u(2) by (intro mult_right_mono) simp_all
    also have "\<dots> = q2 * (1 - u) * (1 + u)" by simp
    also have "\<dots> \<le> (1 + u) * (1 + u) * (1 + u)" using qhi u(1) by (intro mult_right_mono) simp_all
    also have "\<dots> \<le> (1 + 8 * u) * (1 - u)" by (rule n3)
    finally have "x * (1 - u) \<le> (1 + 8 * u) * (1 - u)" .
    moreover have "0 < 1 - u" using u(2) by simp
    ultimately show ?thesis by (simp only: mult_le_cancel_right_pos)
  qed
  have down: "1 - 8 * u \<le> x"
  proof -
    have "(1 - 8 * u) * (1 + u) \<le> (1 - u) * (1 - u) * (1 - u)" by (rule n4)
    also have "\<dots> \<le> q2 * (1 + u) * (1 - u)" using qlo u(2) by (intro mult_right_mono) simp_all
    also have "\<dots> = q2 * (1 - u) * (1 + u)" by simp
    also have "\<dots> \<le> x * (1 + u)" using xlo u(1) by (intro mult_right_mono) simp_all
    finally have "(1 - 8 * u) * (1 + u) \<le> x * (1 + u)" .
    moreover have "0 < 1 + u" using u(1) by simp
    ultimately show ?thesis by (simp only: mult_le_cancel_right_pos)
  qed
  have bound: "\<bar>x - 1\<bar> \<le> 2 powi (- 50)"
    using up down unfolding n5 [symmetric] by (simp add: abs_le_iff)
  have "cosineSimilarity a a = Inr (Finite x)"
    using assms(1) dpos r p x ppos
    by (simp add: cosineSimilarity_self q1_def [symmetric] q2_def [symmetric])
  with bound show ?thesis by blast
qed

text \<open>
  Claim C8, as stated, fails in double arithmetic: the rounded square root of 2, squared
  and rounded, is \<open>2 + 2\<^sup>-\<^sup>5\<^sup>1\<close>, and \<^verbatim>\<open>cosineSimilarity([1, 1], [1, 1])\<close> is
  \<open>1 - 2\<^sup>-\<^sup>5\<^sup>2\<close> (printed \<^verbatim>\<open>0.9999999999999998\<close>), not \<open>1.0\<close>.
\<close>

theorem self_similarity_counterexample:
  "cosineSimilarity [Finite 1, Finite 1] [Finite 1, Finite 1] =
     Inr (Finite (4503599627370495 / 4503599627370496))
   \<and> cosineSimilarity [Finite 1, Finite 1] [Finite 1, Finite 1] \<noteq> Inr (Finite 1)"
  by (simp add: cosineSimilarity_ones)

text \<open>
  Claim C8, amended. \<^verbatim>\<open>cosineSimilarity(a, b)\<close> and \<^verbatim>\<open>cosineSimilarity(b, a)\<close> are the
  same value (or the same error) for every two vectors. \<^verbatim>\<open>cosineSimilarity(a, a)\<close> is
  \<open>1.0\<close> up to rounding: when the sum of the squares of \<open>a\<close> is a double from
  \<open>2\<^sup>-\<^sup>1\<^sup>0\<^sup>2\<^sup>1\<close> up to \<open>2\<^sup>1\<^sup>0\<^sup>2\<^sup>3\<close> the result is a number within \<open>2\<^sup>-\<^sup>5\<^sup>0\<close> of 1,
  and it is exactly \<open>1.0\<close> whenever the rounded square root of that sum, squared
  and rounded, gives the sum back.
\<close>

theorem cosineSimilarity_symmetric:
  "cosineSimilarity a b = cosineSimilarity b a
   \<and> (foldl (\<lambda>sum x. num_add sum (num_mul x x)) (Finite 0) a = Finite d
        \<and> 2 powi (- 1021) \<le> d \<and> d < 2 powi 1023 \<longrightarrow>
      (\<exists>x. cosineSimilarity a a = Inr (Finite x) \<and> \<bar>x - 1\<bar> \<le> 2 powi (- 50)))
   \<and> (foldl (\<lambda>sum x. num_add sum (num_mul x x)) (Finite 0) a = Finite d \<and> 0 < d
        \<and> num_mul (sqrt_rne d) (sqrt_rne d) = Finite d \<longrightarrow>
      cosineSimilarity a a = Inr (Finite 1))"
proof -
  have "cosineSimilarity a a = Inr (Finite 1)"
    if "foldl (\<lambda>sum x. num_add sum (num_mul x x)) (Finite 0) a = Finite d \<and> 0 < d
        \<and> num_mul (sqrt_rne d) (sqrt_rne d) = Finite d"
    using that by (simp add: cosineSimilarity_self)
  moreover have "\<exists>x. cosineSimilarity a a = Inr (Finite x) \<and> \<bar>x - 1\<bar> \<le> 2 powi (- 50)"
    if "foldl (\<lambda>sum x. num_add sum (num_mul x x)) (Finite 0) a = Finite d
        \<and> 2 powi (- 1021) \<le> d \<and> d < 2 powi 1023"
    using that self_similarity_bound [of a d] by blast
  ultimately show ?thesis using cosineSimilarity_commute [of a b] by blast
qed

theorem cosineSimilarity_symmetric_witness:
  "foldl (\<lambda>sum x. num_add sum (num_mul x x)) (Finite 0) [Finite 3, Finite 4] = Finite 25
   \<and> (2::rat) powi (- 1021) \<le> 25 \<and> (25::rat) < 2 powi 1023
   \<and> (0::rat) < 25 \<and> num_mul (sqrt_rne 25) (sqrt_rne 25) = Finite 25
   \<and> cosineSimilarity [Finite 3, Finite 4] [Finite 3, Finite 4] = Inr (Finite 1)
   \<and> \<bar>(1::rat) - 1\<bar> \<le> 2 powi (- 50)
   \<and> cosineSimilarity [Finite 3, Finite 4] [Finite 4, Finite (- 3)] =
       cosineSimilarity [Finite 4, Finite (- 3)] [Finite 3, Finite 4]"
proof -
  have s: "foldl (\<lambda>sum x. num_add sum (num_mul x x)) (Finite 0) [Finite 3, Finite 4] = Finite 25"
    by (simp add: fl_numeral)
  have r: "num_mul (sqrt_rne 25) (sqrt_rne 25) = Finite 25"
    by (simp add: sqrt_rne_25 fl_numeral)
  have b: "(2::rat) powi (- 1021) \<le> 25 \<and> (25::rat) < 2 powi 1023" by simp
  have z: "(0::rat) < 25" by simp
  note th = cosineSimilarity_symmetric [of "[Finite 3, Finite 4]" "[Finite 4, Finite (- 3)]" 25]
  have one: "cosineSimilarity [Finite 3, Finite 4] [Finite 3, Finite 4] = Inr (Finite 1)"
    using th s r z by blast
  have near: "\<exists>x. cosineSimilarity [Finite 3, Finite 4] [Finite 3, Finite 4] = Inr (Finite x)
                 \<and> \<bar>x - 1\<bar> \<le> 2 powi (- 50)"
    using th s b by blast
  have sym: "cosineSimilarity [Finite 3, Finite 4] [Finite 4, Finite (- 3)] =
       cosineSimilarity [Finite 4, Finite (- 3)] [Finite 3, Finite 4]"
    using th by blast
  from near one have "\<bar>(1::rat) - 1\<bar> \<le> 2 powi (- 50)" by auto
  with s r b z one sym show ?thesis by blast
qed

section \<open>Building the index\<close>

lemma vectorStore_invoke [simp]: "vectorStore (invoke c w) = vectorStore w"
  by (simp add: invoke_def)

lemma calls_invoke [simp]: "calls (invoke c w) = calls w @ [c]"
  by (simp add: invoke_def)

lemma vectorStore_push [simp]: "vectorStore (push c w) = vectorStore w @ [c]"
  by (simp add: push_def)

lemma calls_push [simp]: "calls (push c w) = calls w"
  by (simp add: push_def)

lemma loadKnowledgeBase_docs_store:
  assumes "vectorStore w = vectorStore w'"
  shows "fst (loadKnowledgeBase_docs env path docs w) = fst (loadKnowledgeBase_docs env path docs w')
       \<and> vectorStore (snd (loadKnowledgeBase_docs env path docs w)) =
           vectorStore (snd (loadKnowledgeBase_docs env path docs w'))"
  using assms
proof (induction docs arbitrary: w w')
  case Nil
  then show ?case by simp
next
  case (Cons doc docs)
  show ?case
  proof (cases "embedQuery env doc")
    case (Inl e)
    then show ?thesis using Cons.prems by simp
  next
    case (Inr v)
    let ?c = "\<lparr>embedding = v, text = doc, fileName = path\<rparr>"
    have "vectorStore (push ?c (invoke (EmbedCall doc) w)) =
          vectorStore (push ?c (invoke (EmbedCall doc) w'))"
      using Cons.prems by simp
    from Cons.IH [OF this] show ?thesis using Inr by simp
  qed
qed

lemma loadKnowledgeBase_files_step:
  assumes "readFileSync env path = Some contents" and "trim contents \<noteq> []"
    and "createDocuments env (trim contents) = Inr docs"
  shows "loadKnowledgeBase_files env (path # paths) w =
           (case fst (loadKnowledgeBase_docs env path docs (invoke (SplitCall (trim contents)) w)) of
              Inl e \<Rightarrow> (Inl e, snd (loadKnowledgeBase_docs env path docs (invoke (SplitCall (trim contents)) w)))
            | Inr u \<Rightarrow> loadKnowledgeBase_files env paths
                        (snd (loadKnowledgeBase_docs env path docs (invoke (SplitCall (trim contents)) w))))"
  using assms by (simp add: Let_def split: prod.splits sum.splits)

lemma loadKnowledgeBase_files_store:
  assumes "vectorStore w = vectorStore w'"
  shows "fst (loadKnowledgeBase_files env paths w) = fst (loadKnowledgeBase_files env paths w')
       \<and> vectorStore (snd (loadKnowledgeBase_files env paths w)) =
           vectorStore (snd (loadKnowledgeBase_files env paths w'))"
  using assms
proof (induction paths arbitrary: w w')
  case Nil
  then show ?case by simp
next
  case (Cons path paths)
  show ?case
  proof (cases "readFileSync env path")
    case None
    then show ?thesis using Cons.IH [OF Cons.prems] by simp
  next
    case (Some contents)
    show ?thesis
    proof (cases "trim contents = []")
      case True
      then show ?thesis using Some Cons.IH [OF Cons.prems] by simp
    next
      case False
      show ?thesis
      proof (cases "createDocuments env (trim contents)")
        case (Inl e)
        then show ?thesis using Some False Cons.prems by simp
      next
        case (Inr docs)
        let ?t = "trim contents"
        let ?a = "loadKnowledgeBase_docs env path docs (invoke (SplitCall ?t) w)"
        let ?b = "loadKnowledgeBase_docs env path docs (invoke (SplitCall ?t) w')"
        have "vectorStore (invoke (SplitCall ?t) w) = vectorStore (invoke (SplitCall ?t) w')"
          using Cons.prems by simp
        from loadKnowledgeBase_docs_store [OF this, of env path docs]
        have f: "fst ?a = fst ?b" and s: "vectorStore (snd ?a) = vectorStore (snd ?b)" by auto
        note st = loadKnowledgeBase_files_step [OF Some False Inr]
        show ?thesis
        proof (cases "fst ?a")
          case (Inl e)
          then have "fst ?b = Inl e" using f by simp
          then show ?thesis using Inl s by (simp only: st sum.case fst_conv snd_conv)
        next
          case r: (Inr u)
          then have "fst ?b = Inr u" using f by simp
          then show ?thesis using r Cons.IH [OF s] by (simp only: st sum.case)
        qed
      qed
    qed
  qed
qed

lemma loadKnowledgeBase_nonempty:
  "vectorStore w \<noteq> [] \<Longrightarrow> loadKnowledgeBase env filePaths w = (Inr (vectorStore w), w)"
  by (simp add: loadKnowledgeBase_def)

lemma loadKnowledgeBase_store:
  "vectorStore (snd (loadKnowledgeBase env filePaths w)) =
     (if vectorStore w \<noteq> [] then vectorStore w
      else vectorStore (snd (loadKnowledgeBase_files env filePaths w)))"
  by (simp add: loadKnowledgeBase_def split: prod.splits sum.splits)

lemma loadKnowledgeBase_twice:
  "vectorStore (snd (loadKnowledgeBase env filePaths (snd (loadKnowledgeBase env filePaths w)))) =
   vectorStore (snd (loadKnowledgeBase env filePaths w))"
proof (cases "vectorStore w = []")
  case False
  then show ?thesis by (simp add: loadKnowledgeBase_nonempty)
next
  case True
  define w1 where "w1 = snd (loadKnowledgeBase env filePaths w)"
  show ?thesis
  proof (cases "vectorStore w1 = []")
    case False
    then show ?thesis unfolding w1_def [symmetric] by (simp add: loadKnowledgeBase_nonempty)
  next
    case e: True
    then have "vectorStore w1 = vectorStore w" using True by simp
    from loadKnowledgeBase_files_store [OF this, of env filePaths]
    have "vectorStore (snd (loadKnowledgeBase_files env filePaths w1)) =
          vectorStore (snd (loadKnowledgeBase_files env filePaths w))" by simp
    then have "vectorStore (snd (loadKnowledgeBase env filePaths w1)) =
          vectorStore (snd (loadKnowledgeBase env filePaths w))"
      using True e by (simp add: loadKnowledgeBase_store)
    then show ?thesis by (simp add: w1_def)
  qed
qed

text \<open>
  Claim C6. For every file system and every state of the index, building twice in
  succession leaves the same chunks, and so the same chunk count, as building once;
  on an index that is not empty a build returns the stored chunks and changes nothing.
\<close>

theorem loadKnowledgeBase_idempotent:
  "vectorStore (snd (loadKnowledgeBase env filePaths (snd (loadKnowledgeBase env filePaths w)))) =
     vectorStore (snd (loadKnowledgeBase env filePaths w))
   \<and> length (vectorStore (snd (loadKnowledgeBase env filePaths (snd (loadKnowledgeBase env filePaths w))))) =
     length (vectorStore (snd (loadKnowledgeBase env filePaths w)))
   \<and> (vectorStore w \<noteq> [] \<longrightarrow> loadKnowledgeBase env filePaths w = (Inr (vectorStore w), w))"
  by (simp add: loadKnowledgeBase_twice loadKnowledgeBase_nonempty)

lemma demo_build:
  "vectorStore (snd (loadKnowledgeBase demo_env (KNOWLEDGE_FILES demo_env) empty_world)) = demo_store"
  by (simp add: loadKnowledgeBase_def demo_env_def demo_files_def demo_embed_def demo_store_def
        empty_world_def trim_def isWhiteSpace_def push_def invoke_def Let_def)

theorem loadKnowledgeBase_idempotent_witness:
  "vectorStore demo_world \<noteq> []
   \<and> loadKnowledgeBase demo_env (KNOWLEDGE_FILES demo_env) demo_world = (Inr demo_store, demo_world)
   \<and> length (vectorStore (snd (loadKnowledgeBase demo_env (KNOWLEDGE_FILES demo_env) empty_world))) = 2
   \<and> length (vectorStore (snd (loadKnowledgeBase demo_env (KNOWLEDGE_FILES demo_env)
        (snd (loadKnowledgeBase demo_env (KNOWLEDGE_FILES demo_env) empty_world))))) = 2"
proof -
  have ne: "vectorStore demo_world \<noteq> []" by (simp add: demo_world_def demo_store_def)
  have s: "vectorStore demo_world = demo_store" by (simp add: demo_world_def)
  have l: "length demo_store = 2" by (simp add: demo_store_def)
  from loadKnowledgeBase_idempotent [of demo_env "KNOWLEDGE_FILES demo_env" demo_world] ne s
  have a: "loadKnowledgeBase demo_env (KNOWLEDGE_FILES demo_env) demo_world = (Inr demo_store, demo_world)"
    by simp
  from loadKnowledgeBase_idempotent [of demo_env "KNOWLEDGE_FILES demo_env" empty_world]
  have b: "length (vectorStore (snd (loadKnowledgeBase demo_env (KNOWLEDGE_FILES demo_env)
        (snd (loadKnowledgeBase demo_env (KNOWLEDGE_FILES demo_env) empty_world))))) = 2"
    by (simp add: demo_build l)
  show ?thesis using ne a b by (simp add: demo_build l)
qed

section \<open>Properties of the ask route\<close>

lemma validateQuestion_calls:
  "validateQuestion env query w = (r, w') \<Longrightarrow> calls w' = calls w @ [ValidationCall query]"
  by (auto simp: validateQuestion_def Let_def split: sum.splits)

lemma classifyRole_calls:
  "classifyRole env query w = (r, w') \<Longrightarrow> calls w' = calls w @ [RoleCall query]"
  by (auto simp: classifyRole_def Let_def split: sum.splits)

lemma classifyRole_allowed:
  "classifyRole env query w = (Inr role, w') \<Longrightarrow> role \<in> set (map fst agentPrompts)"
  by (auto simp: classifyRole_def Let_def agentPrompts_def split: sum.splits if_splits)

lemma loadKnowledgeBase_docs_calls:
  "\<exists>cs. calls (snd (loadKnowledgeBase_docs env path docs w)) = calls w @ cs
        \<and> (\<forall>p q. ChatCall p q \<notin> set cs)"
proof (induction docs arbitrary: w)
  case Nil
  then show ?case by simp
next
  case (Cons doc docs)
  show ?case
  proof (cases "embedQuery env doc")
    case (Inl e)
    then show ?thesis by simp
  next
    case (Inr v)
    let ?w = "push \<lparr>embedding = v, text = doc, fileName = path\<rparr> (invoke (EmbedCall doc) w)"
    from Cons.IH [of ?w] obtain cs where
      "calls (snd (loadKnowledgeBase_docs env path docs ?w)) = calls ?w @ cs"
      "\<forall>p q. ChatCall p q \<notin> set cs" by blast
    then have "calls (snd (loadKnowledgeBase_docs env path (doc # docs) w)) = calls w @ (EmbedCall doc # cs)
               \<and> (\<forall>p q. ChatCall p q \<notin> set (EmbedCall doc # cs))"
      using Inr by simp
    then show ?thesis by blast
  qed
qed

lemma loadKnowledgeBase_files_calls:
  "\<exists>cs. calls (snd (loadKnowledgeBase_files env paths w)) = calls w @ cs
        \<and> (\<forall>p q. ChatCall p q \<notin> set cs)"
proof (induction paths arbitrary: w)
  case Nil
  then show ?case by simp
next
  case (Cons path paths)
  show ?case
  proof (cases "readFileSync env path")
    case None
    then show ?thesis using Cons.IH [of w] by simp
  next
    case (Some contents)
    show ?thesis
    proof (cases "trim contents = []")
      case True
      then show ?thesis using Some Cons.IH [of w] by simp
    next
      case False
      show ?thesis
      proof (cases "createDocuments env (trim contents)")
        case (Inl e)
        then show ?thesis using Some False by simp
      next
        case (Inr docs)
        let ?t = "trim contents"
        let ?a = "loadKnowledgeBase_docs env path docs (invoke (SplitCall ?t) w)"
        note st = loadKnowledgeBase_files_step [OF Some False Inr, of paths w]
        from loadKnowledgeBase_docs_calls [of env path docs "invoke (SplitCall ?t) w"]
        obtain cs where cs: "calls (snd ?a) = calls w @ (SplitCall ?t # cs)"
          "\<forall>p q. ChatCall p q \<notin> set (SplitCall ?t # cs)" by auto
        show ?thesis
        proof (cases "fst ?a")
          case (Inl e)
          then have "snd (loadKnowledgeBase_files env (path # paths) w) = snd ?a"
            by (simp only: st sum.case snd_conv)
          then show ?thesis using cs by metis
        next
          case r: (Inr u)
          then have eq: "loadKnowledgeBase_files env (path # paths) w =
                     loadKnowledgeBase_files env paths (snd ?a)"
            by (simp only: st sum.case)
          from Cons.IH [of "snd ?a"] obtain ds where
            ds: "calls (snd (loadKnowledgeBase_files env paths (snd ?a))) = calls (snd ?a) @ ds"
            "\<forall>p q. ChatCall p q \<notin> set ds" by blast
          have "calls (snd (loadKnowledgeBase_files env (path # paths) w)) =
                  calls w @ ((SplitCall ?t # cs) @ ds)
                \<and> (\<forall>p q. ChatCall p q \<notin> set ((SplitCall ?t # cs) @ ds))"
            unfolding eq using cs ds by simp
          then show ?thesis by blast
        qed
      qed
    qed
  qed
qed

lemma loadKnowledgeBase_calls:
  "\<exists>cs. calls (snd (loadKnowledgeBase env filePaths w)) = calls w @ cs
        \<and> (\<forall>p q. ChatCall p q \<notin> set cs)"
proof (cases "vectorStore w = []")
  case False
  then show ?thesis by (simp add: loadKnowledgeBase_nonempty)
next
  case True
  then have "snd (loadKnowledgeBase env filePaths w) = snd (loadKnowledgeBase_files env filePaths w)"
    by (simp add: loadKnowledgeBase_def split: prod.splits sum.splits)
  then show ?thesis using loadKnowledgeBase_files_calls [of env filePaths w] by simp
qed

lemma findRelevantChunks_calls:
  "calls (snd (findRelevantChunks env question topK threshold w)) = calls w @ [EmbedCall question]"
  by (simp add: findRelevantChunks_def Let_def split: sum.splits)

lemma forward_message_roles:
  assumes "role \<in> set (map fst agentPrompts)"
  shows "forward_message role =
           ''will forward this to our '' @ map (\<lambda>c. if c = CHR ''_'' then CHR '' '' else c) role"
  using assms by (auto simp: agentPrompts_def forward_message_def)

text \<open>
  Claim C5. For a valid query, whatever role the classifier gives (it is one of the
  five), when retrieval returns no chunk the response is, with status 200, exactly
  \<open>will forward this to our\<close> followed by the role with its underscores replaced by
  spaces, and the calls made to the collaborators on the way include no chat call.
\<close>

theorem forwards_when_retrieval_empty:
  assumes "query \<noteq> []"
    and "validateQuestion env query w = (Inr True, w1)"
    and "classifyRole env query w1 = (Inr role, w2)"
    and "loadKnowledgeBase env (KNOWLEDGE_FILES env) w2 = (Inr store, w3)"
    and "findRelevantChunks env query 3 default_threshold w3 = (Inr [], w4)"
  shows "ask env (Some query) w =
           (Responded 200 (''will forward this to our ''
              @ map (\<lambda>c. if c = CHR ''_'' then CHR '' '' else c) role), w4)
       \<and> role \<in> {''customer_support'', ''sales_agent'', ''marketing_agent'',
                  ''technical_expert'', ''general_info''}
       \<and> (role = ''sales_agent'' \<longrightarrow>
            fst (ask env (Some query) w) = Responded 200 ''will forward this to our sales agent'')
       \<and> (\<exists>cs. calls w4 = calls w @ cs \<and> (\<forall>p q. ChatCall p q \<notin> set cs))"
proof -
  have role: "role \<in> set (map fst agentPrompts)" using assms(3) by (rule classifyRole_allowed)
  have "ask env (Some query) w = (Responded 200 (forward_message role), w4)"
    using assms by (simp add: ask_def ask_try_def)
  then have a: "ask env (Some query) w =
           (Responded 200 (''will forward this to our ''
              @ map (\<lambda>c. if c = CHR ''_'' then CHR '' '' else c) role), w4)"
    by (simp only: forward_message_roles [OF role])
  have c1: "calls w1 = calls w @ [ValidationCall query]"
    using assms(2) by (rule validateQuestion_calls)
  have c2: "calls w2 = calls w1 @ [RoleCall query]"
    using assms(3) by (rule classifyRole_calls)
  from loadKnowledgeBase_calls [of env "KNOWLEDGE_FILES env" w2] assms(4)
  obtain cs where c3: "calls w3 = calls w2 @ cs" and nc: "\<forall>p q. ChatCall p q \<notin> set cs" by auto
  have c4: "calls w4 = calls w3 @ [EmbedCall query]"
    using findRelevantChunks_calls [of env query 3 default_threshold w3] assms(5) by simp
  have "calls w4 = calls w @ (ValidationCall query # RoleCall query # cs @ [EmbedCall query])
        \<and> (\<forall>p q. ChatCall p q \<notin> set (ValidationCall query # RoleCall query # cs @ [EmbedCall query]))"
    using c1 c2 c3 c4 nc by simp
  then have c: "\<exists>cs. calls w4 = calls w @ cs \<and> (\<forall>p q. ChatCall p q \<notin> set cs)" by blast
  have s: "role = ''sales_agent'' \<longrightarrow>
            fst (ask env (Some query) w) = Responded 200 ''will forward this to our sales agent''"
    by (simp add: a)
  have r5: "role \<in> {''customer_support'', ''sales_agent'', ''marketing_agent'',
                  ''technical_expert'', ''general_info''}"
    using role by (simp only: allowed_roles)
  show ?thesis using a r5 c s by blast
qed

theorem forwards_when_retrieval_empty_witness:
  "''How long does shipping take?'' \<noteq> []
   \<and> validateQuestion demo_env ''How long does shipping take?'' refund_world =
       (Inr True, invoke (ValidationCall ''How long does shipping take?'') refund_world)
   \<and> ask demo_env (Some ''How long does shipping take?'') refund_world =
       (Responded 200 ''will forward this to our technical expert'',
        invoke (EmbedCall ''How long does shipping take?'')
          (invoke (RoleCall ''How long does shipping take?'')
            (invoke (ValidationCall ''How long does shipping take?'') refund_world)))"
proof -
  let ?q = "''How long does shipping take?''"
  let ?w1 = "invoke (ValidationCall ?q) refund_world"
  let ?w2 = "invoke (RoleCall ?q) ?w1"
  let ?w4 = "invoke (EmbedCall ?q) ?w2"
  have q: "?q \<noteq> []" by simp
  have v: "validateQuestion demo_env ?q refund_world = (Inr True, ?w1)"
    by (simp add: validateQuestion_def demo_env_def trim_def isWhiteSpace_def toLowerCase_def
          lower_char_def)
  have n: "toLowerCase (trim ('' Technical_Expert '' @ [CHR 0x0A])) = ''technical_expert''"
    by code_simp
  have r: "classifyRole demo_env ?q ?w1 = (Inr ''technical_expert'', ?w2)"
    using n by (simp add: classifyRole_def demo_env_def agentPrompts_def)
  have l: "loadKnowledgeBase demo_env (KNOWLEDGE_FILES demo_env) ?w2 = (Inr [hd demo_store], ?w2)"
    by (simp add: loadKnowledgeBase_def refund_world_def)
  have e: "embedQuery demo_env ?q = Inr [Finite 4, Finite (- 3)]"
    by (simp add: demo_env_def demo_embed_def)
  have "vectorStore ?w2 = vectorStore refund_world" by simp
  then have sc: "score_all [Finite 4, Finite (- 3)] (vectorStore ?w2) =
               Inr [(demo_scored ! 0)\<lparr>score := Finite 0\<rparr>]"
    by (simp only: refund_scores)
  have f: "findRelevantChunks demo_env ?q 3 default_threshold ?w2 = (Inr [], ?w4)"
    by (simp add: findRelevantChunks_scored [OF e sc] sort_by_def slice0_def default_threshold_def)
  from forwards_when_retrieval_empty [OF q v r l f]
  have "ask demo_env (Some ?q) refund_world =
          (Responded 200 (''will forward this to our ''
              @ map (\<lambda>c. if c = CHR ''_'' then CHR '' '' else c) ''technical_expert''), ?w4)"
    by blast
  then show ?thesis using q v by simp
qed

lemma ask_validation_fault:
  "query \<noteq> [] \<Longrightarrow> validationChain env query = Inl e \<Longrightarrow>
   ask env (Some query) w = (Rejected e, invoke (ValidationCall query) w)"
  by (simp add: ask_def validateQuestion_def)

lemma ask_try_fault:
  "query \<noteq> [] \<Longrightarrow> validateQuestion env query w = (Inr True, w1) \<Longrightarrow>
   ask_try env query w1 = (Inl e, w2) \<Longrightarrow>
   ask env (Some query) w = (Responded 500 (cross_mark @ '' An error occurred.''), w2)"
  by (simp add: ask_def)

lemma ask_try_classify_fault:
  "roleChain env query = Inl e \<Longrightarrow> fst (ask_try env query w) = Inl e"
  by (simp add: ask_try_def classifyRole_def)

text \<open>
  Claim C2 against the code. The validation call is made before the \<^verbatim>\<open>try\<close> block
  opens: when it throws, the handler's promise rejects and the handler sends no
  response, where a fault of the classifier call, inside the block, is answered with
  the generic 500 response.
\<close>

theorem validation_fault_escapes_handler:
  "fst (ask (demo_env\<lparr>validationChain := \<lambda>q. Inl (Error ''fetch failed'')\<rparr>)
          (Some ''How do I reset my password?'') empty_world) =
     Rejected (Error ''fetch failed'')
   \<and> fst (ask (demo_env\<lparr>roleChain := \<lambda>q. Inl (Error ''fetch failed'')\<rparr>)
          (Some ''How do I reset my password?'') empty_world) =
     Responded 500 (cross_mark @ '' An error occurred.'')"
  by (simp add: ask_def ask_try_def validateQuestion_def classifyRole_def demo_env_def
        trim_def isWhiteSpace_def toLowerCase_def lower_char_def)

section \<open>Concurrent builds\<close>

lemma after_docs_store:
  assumes "vectorStore w = vectorStore w'"
  shows "after_docs env path docs paths w = after_docs env path docs paths w'"
proof -
  let ?a = "loadKnowledgeBase_docs env path docs w"
  let ?b = "loadKnowledgeBase_docs env path docs w'"
  from loadKnowledgeBase_docs_store [OF assms, of env path docs]
  have f: "fst ?a = fst ?b" and s: "vectorStore (snd ?a) = vectorStore (snd ?b)" by auto
  have a: "after_docs env path docs paths w =
             (case fst ?a of Inl e \<Rightarrow> vectorStore (snd ?a)
              | Inr u \<Rightarrow> vectorStore (snd (loadKnowledgeBase_files env paths (snd ?a))))"
    by (simp add: after_docs_def split: prod.splits sum.splits)
  have b: "after_docs env path docs paths w' =
             (case fst ?b of Inl e \<Rightarrow> vectorStore (snd ?b)
              | Inr u \<Rightarrow> vectorStore (snd (loadKnowledgeBase_files env paths (snd ?b))))"
    by (simp add: after_docs_def split: prod.splits sum.splits)
  show ?thesis
  proof (cases "fst ?a")
    case (Inl e)
    then show ?thesis using f s by (simp add: a b)
  next
    case (Inr u)
    moreover from loadKnowledgeBase_files_store [OF s, of env paths]
    have "vectorStore (snd (loadKnowledgeBase_files env paths (snd ?a))) =
          vectorStore (snd (loadKnowledgeBase_files env paths (snd ?b)))" by simp
    ultimately show ?thesis using f by (simp add: a b)
  qed
qed

lemma after_docs_Nil:
  "after_docs env path [] paths w = vectorStore (snd (loadKnowledgeBase_files env paths w))"
  by (simp add: after_docs_def)

lemma after_docs_fault:
  "embedQuery env doc = Inl e \<Longrightarrow> after_docs env path (doc # docs) paths w = vectorStore w"
  by (simp add: after_docs_def)

lemma after_docs_Cons:
  "embedQuery env doc = Inr v \<Longrightarrow>
   after_docs env path (doc # docs) paths w =
     after_docs env path docs paths
       (push \<lparr>embedding = v, text = doc, fileName = path\<rparr> (invoke (EmbedCall doc) w))"
  by (simp add: after_docs_def)

lemma files_after_docs:
  assumes "readFileSync env path = Some contents" and "trim contents \<noteq> []"
    and "createDocuments env (trim contents) = Inr docs"
  shows "vectorStore (snd (loadKnowledgeBase_files env (path # paths) w)) =
           after_docs env path docs paths (invoke (SplitCall (trim contents)) w)"
  by (simp only: loadKnowledgeBase_files_step [OF assms] after_docs_def)
     (simp split: prod.splits sum.splits)

lemma build_scan_rest:
  assumes "build_scan env paths store = (t, store')" and "vectorStore w = store"
  shows "rest_of_build env filePaths t store' = vectorStore (snd (loadKnowledgeBase_files env paths w))"
  using assms
proof (induction paths arbitrary: w)
  case Nil
  then show ?case by (auto simp: rest_of_build_def)
next
  case (Cons path paths)
  show ?case
  proof (cases "readFileSync env path")
    case None
    then show ?thesis using Cons by simp
  next
    case (Some contents)
    show ?thesis
    proof (cases "trim contents = []")
      case True
      then show ?thesis using Some Cons by simp
    next
      case False
      show ?thesis
      proof (cases "createDocuments env (trim contents)")
        case (Inl e)
        then show ?thesis using Some False Cons.prems by (auto simp: rest_of_build_def)
      next
        case (Inr docs)
        let ?w1 = "invoke (SplitCall (trim contents)) w"
        note fa = files_after_docs [OF Some False Inr, of paths w]
        show ?thesis
        proof (cases docs)
          case Nil
          then have "build_scan env paths store = (t, store')"
            using Cons.prems(1) Some False Inr by simp
          moreover have "vectorStore ?w1 = store" using Cons.prems(2) by simp
          ultimately have "rest_of_build env filePaths t store' =
                  vectorStore (snd (loadKnowledgeBase_files env paths ?w1))"
            by (rule Cons.IH)
          then show ?thesis using Nil by (simp only: fa after_docs_Nil)
        next
          case (Cons doc rest)
          then have t: "t = AwaitEmbed path doc rest paths" and s: "store' = store"
            using Cons.prems(1) Some False Inr by simp_all
          have "vectorStore \<lparr>vectorStore = store, calls = []\<rparr> = vectorStore ?w1"
            using Cons.prems(2) by simp
          then have "after_docs env path (doc # rest) paths \<lparr>vectorStore = store, calls = []\<rparr> =
                after_docs env path (doc # rest) paths ?w1"
            by (rule after_docs_store)
          then show ?thesis using Cons by (simp only: fa t s rest_of_build_def task.case)
        qed
      qed
    qed
  qed
qed

lemma build_next_rest:
  assumes "build_next env path docs paths store = (t, store')"
  shows "rest_of_build env filePaths t store' =
           after_docs env path docs paths \<lparr>vectorStore = store, calls = []\<rparr>"
proof (cases docs)
  case Nil
  then have "build_scan env paths store = (t, store')" using assms by (simp add: build_next_def)
  then have "rest_of_build env filePaths t store' =
        vectorStore (snd (loadKnowledgeBase_files env paths \<lparr>vectorStore = store, calls = []\<rparr>))"
    by (rule build_scan_rest) simp
  then show ?thesis using Nil by (simp only: after_docs_Nil)
next
  case (Cons doc rest)
  then show ?thesis using assms by (auto simp: build_next_def rest_of_build_def)
qed

lemma build_turn_rest:
  assumes "build_turn env filePaths t store = (t', store')"
  shows "rest_of_build env filePaths t' store' = rest_of_build env filePaths t store"
proof (cases t)
  case Ready
  show ?thesis
  proof (cases "store = []")
    case True
    then have "build_scan env filePaths store = (t', store')"
      using assms Ready by (simp add: build_turn_def)
    then have "rest_of_build env filePaths t' store' =
        vectorStore (snd (loadKnowledgeBase_files env filePaths \<lparr>vectorStore = store, calls = []\<rparr>))"
      by (rule build_scan_rest) simp
    then show ?thesis using True Ready by (simp add: rest_of_build_def loadKnowledgeBase_store)
  next
    case False
    then show ?thesis
      using assms Ready by (auto simp: build_turn_def rest_of_build_def loadKnowledgeBase_nonempty)
  qed
next
  case (AwaitEmbed path doc docs paths)
  let ?w = "\<lparr>vectorStore = store, calls = []\<rparr>"
  show ?thesis
  proof (cases "embedQuery env doc")
    case (Inl e)
    then show ?thesis
      using assms AwaitEmbed by (auto simp: build_turn_def rest_of_build_def after_docs_fault)
  next
    case (Inr v)
    let ?c = "\<lparr>embedding = v, text = doc, fileName = path\<rparr>"
    have "build_next env path docs paths (store @ [?c]) = (t', store')"
      using assms AwaitEmbed Inr by (simp add: build_turn_def)
    then have "rest_of_build env filePaths t' store' =
                 after_docs env path docs paths \<lparr>vectorStore = store @ [?c], calls = []\<rparr>"
      by (rule build_next_rest)
    also have "\<dots> = after_docs env path docs paths (push ?c (invoke (EmbedCall doc) ?w))"
      by (rule after_docs_store) simp
    also have "\<dots> = after_docs env path (doc # docs) paths ?w"
      using Inr by (simp only: after_docs_Cons)
    finally show ?thesis using AwaitEmbed by (simp add: rest_of_build_def)
  qed
next
  case (Done r)
  then show ?thesis using assms by (auto simp: build_turn_def)
qed

lemma interleave_single:
  assumes "interleave env filePaths ([Ready], s) (ts, store)"
  shows "\<exists>t. ts = [t] \<and> rest_of_build env filePaths t store = rest_of_build env filePaths Ready s"
  using assms
proof (induction "(ts, store)" arbitrary: ts store rule: interleave.induct)
  case start
  then show ?case by simp
next
  case (turn ts store i t' store')
  then obtain t where t: "ts = [t]"
    and r: "rest_of_build env filePaths t store = rest_of_build env filePaths Ready s" by blast
  have i: "i = 0" using turn.hyps(3) t by simp
  have "rest_of_build env filePaths t' store' = rest_of_build env filePaths t store"
    using turn.hyps(4) t i by (intro build_turn_rest) simp
  then show ?case using t i r by simp
qed

lemma single_build_is_loadKnowledgeBase:
  assumes "interleave env filePaths ([Ready], s) ([Done r], s')"
  shows "s' = vectorStore (snd (loadKnowledgeBase env filePaths \<lparr>vectorStore = s, calls = []\<rparr>))"
  using interleave_single [OF assms] by (simp add: rest_of_build_def)

lemma demo_turns:
  "build_turn demo_env [''knowledge.txt'', ''shipping.txt''] Ready [] =
     (AwaitEmbed ''knowledge.txt'' ''Our refund window is 30 days.'' [] [''shipping.txt''], [])"
  "build_turn demo_env fps (AwaitEmbed ''knowledge.txt'' ''Our refund window is 30 days.'' [] [''shipping.txt'']) store =
     (AwaitEmbed ''shipping.txt'' ''Shipping takes 5 days.'' [] [], store @ [demo_store ! 0])"
  "build_turn demo_env fps (AwaitEmbed ''shipping.txt'' ''Shipping takes 5 days.'' [] []) store =
     (Done (Inr ()), store @ [demo_store ! 1])"
  by (simp_all add: build_turn_def build_next_def demo_env_def demo_files_def demo_embed_def
        demo_store_def trim_def isWhiteSpace_def Let_def)

text \<open>
  Claim C9 against the code. Two requests reach \<^verbatim>\<open>loadKnowledgeBase\<close> on the empty
  index. The first is suspended at its first embedding when the second tests
  \<^verbatim>\<open>vectorStore.length > 0\<close>: the store is still empty, the second starts a build of
  its own, and both push every chunk, four chunks for a knowledge base of two. When the
  second arrives after the first chunk is stored it returns at once, on an index that
  holds one of the two chunks, while the first build is still suspended.
\<close>

theorem concurrent_builds_duplicate_chunks:
  "interleave demo_env (KNOWLEDGE_FILES demo_env) ([Ready, Ready], [])
     ([Done (Inr ()), Done (Inr ())], demo_store @ demo_store)
   \<and> length (demo_store @ demo_store) = 4
   \<and> length (vectorStore (snd (loadKnowledgeBase demo_env (KNOWLEDGE_FILES demo_env) empty_world))) = 2
   \<and> interleave demo_env (KNOWLEDGE_FILES demo_env) ([Ready, Ready], [])
       ([AwaitEmbed ''shipping.txt'' ''Shipping takes 5 days.'' [] [], Done (Inr ())],
        [demo_store ! 0])"
proof -
  let ?fps = "[''knowledge.txt'', ''shipping.txt'']"
  let ?K = "AwaitEmbed ''knowledge.txt'' ''Our refund window is 30 days.'' [] [''shipping.txt'']"
  let ?S = "AwaitEmbed ''shipping.txt'' ''Shipping takes 5 days.'' [] []"
  let ?D = "Done (Inr ())"
  let ?c0 = "demo_store ! 0" and ?c1 = "demo_store ! 1"
  let ?R = "interleave demo_env ?fps ([Ready, Ready], [])"
  have fps: "KNOWLEDGE_FILES demo_env = ?fps" by (simp add: demo_env_def)
  have s0: "?R ([Ready, Ready], [])" by (rule interleave.start)
  from interleave.turn [OF s0, of 0] demo_turns(1)
  have s1: "?R ([?K, Ready], [])" by simp
  from interleave.turn [OF s1, of 1] demo_turns(1)
  have s2: "?R ([?K, ?K], [])" by simp
  from interleave.turn [OF s2, of 0] demo_turns(2) [of ?fps "[]"]
  have s3: "?R ([?S, ?K], [?c0])" by simp
  from interleave.turn [OF s3, of 0] demo_turns(3) [of ?fps "[?c0]"]
  have s4: "?R ([?D, ?K], [?c0, ?c1])" by simp
  from interleave.turn [OF s4, of 1] demo_turns(2) [of ?fps "[?c0, ?c1]"]
  have s5: "?R ([?D, ?S], [?c0, ?c1, ?c0])" by simp
  from interleave.turn [OF s5, of 1] demo_turns(3) [of ?fps "[?c0, ?c1, ?c0]"]
  have s6: "?R ([?D, ?D], [?c0, ?c1, ?c0, ?c1])" by simp
  have d: "[?c0, ?c1, ?c0, ?c1] = demo_store @ demo_store" by (simp add: demo_store_def)
  from interleave.turn [OF s1, of 0] demo_turns(2) [of ?fps "[]"]
  have p1: "?R ([?S, Ready], [?c0])" by simp
  have "build_turn demo_env ?fps Ready [?c0] = (?D, [?c0])" by (simp add: build_turn_def)
  with interleave.turn [OF p1, of 1]
  have p2: "?R ([?S, ?D], [?c0])" by simp
  have l: "length (demo_store @ demo_store) = 4" by (simp add: demo_store_def)
  have l2: "length (vectorStore (snd (loadKnowledgeBase demo_env (KNOWLEDGE_FILES demo_env) empty_world))) = 2"
    by (simp add: demo_build demo_store_def)
  show ?thesis using s6 p2 l l2 unfolding fps d by simp
qed

end
